theory Spec2Isabelle
  imports Main "HOL-Library.Word" "HOL-Library.AList"
begin

unbundle bit_operations_syntax

section \<open>Data model of tail.go\<close>

text \<open>
  A decoded log entry is a Go \<^verbatim>\<open>map[string]interface{}\<close>. The values the code
  inspects are strings, object identifiers, logical timestamps and nested documents;
  \<open>VInt\<close> and \<open>VBool\<close> stand for values of any other dynamic type. A document is an
  association list read with \<open>map_of\<close>; an \<open>iface\<close> is a Go interface value, \<open>None\<close>
  being the nil interface that a lookup of an absent key returns.
\<close>

datatype bval =
    VString string
  | VObjectId string
  | VTimestamp "64 word"
  | VInt int
  | VBool bool
  | VDoc "(string \<times> bval) list"

type_synonym document = "(string \<times> bval) list"
type_synonym iface = "bval option"

text \<open>\<^verbatim>\<open>m[k]\<close> on a Go map: the nil interface when the key is absent.\<close>

definition index_map :: "document \<Rightarrow> string \<Rightarrow> iface" where
  "index_map m k = map_of m k"

text \<open>
  The two-valued type assertion \<^verbatim>\<open>v, ok := x.(T)\<close>: the zero value of \<open>T\<close> and
  \<open>False\<close> when \<open>x\<close> is nil or holds another type.
\<close>

fun assert_string :: "iface \<Rightarrow> string \<times> bool" where
  "assert_string (Some (VString s)) = (s, True)"
| "assert_string _ = ([], False)"

fun assert_ObjectId :: "iface \<Rightarrow> string \<times> bool" where
  "assert_ObjectId (Some (VObjectId i)) = (i, True)"
| "assert_ObjectId _ = ([], False)"

fun assert_map :: "iface \<Rightarrow> document \<times> bool" where
  "assert_map (Some (VDoc d)) = (d, True)"
| "assert_map _ = ([], False)"

text \<open>
  The one-valued type assertion \<^verbatim>\<open>x.(T)\<close> panics when \<open>x\<close> is nil or holds
  another type: \<open>None\<close> is the panic.
\<close>

fun must_map :: "iface \<Rightarrow> document option" where
  "must_map (Some (VDoc d)) = Some d"
| "must_map _ = None"

fun must_ObjectId :: "iface \<Rightarrow> string option" where
  "must_ObjectId (Some (VObjectId i)) = Some i"
| "must_ObjectId _ = None"

section \<open>The operation parser: \<^verbatim>\<open>NewOplogQuery\<close>\<close>

record oplogQuery =
  dataset :: document
  db :: string
  collection :: string

definition C :: "oplogQuery \<Rightarrow> string" where
  "C q = collection q"

definition DB :: "oplogQuery \<Rightarrow> string" where
  "DB q = db q"

definition OP :: "oplogQuery \<Rightarrow> string" where
  "OP q = (case assert_string (index_map (dataset q) ''op'') of (s, ok) \<Rightarrow> if ok then s else [])"

datatype error = NamespaceNotGiven | InvalidNamespace

fun error_message :: "error \<Rightarrow> string" where
  "error_message NamespaceNotGiven = ''namespace not given''"
| "error_message InvalidNamespace = ''Invalid namespace given, must contain dot''"

text \<open>
  \<^verbatim>\<open>strings.Index(s, substr)\<close>: the index of the first occurrence of \<open>substr\<close> in
  \<open>s\<close>, or \<open>-1\<close>.
\<close>

definition has_prefix :: "string \<Rightarrow> string \<Rightarrow> bool" where
  "has_prefix s p = (length p \<le> length s \<and> take (length p) s = p)"

fun index_from :: "string \<Rightarrow> string \<Rightarrow> int \<Rightarrow> int" where
  "index_from [] sub i = (if sub = [] then i else - 1)"
| "index_from (c # cs) sub i = (if has_prefix (c # cs) sub then i else index_from cs sub (i + 1))"

definition strings_Index :: "string \<Rightarrow> string \<Rightarrow> int" where
  "strings_Index s sub = index_from s sub 0"

definition NewOplogQuery :: "document \<Rightarrow> error + oplogQuery" where
  "NewOplogQuery ds =
     (case assert_string (index_map ds ''ns'') of (namespace, ok) \<Rightarrow>
        if namespace = [] \<or> \<not> ok then Inl NamespaceNotGiven
        else
          let p = strings_Index namespace ''.'' in
          if p = - 1 then Inl InvalidNamespace
          else
            let triggerDB = take (nat p) namespace;
                triggerCollection = drop (nat (p + 1)) namespace
            in Inr \<lparr>dataset = ds, db = triggerDB, collection = triggerCollection\<rparr>)"

section \<open>The timestamp codec: \<^verbatim>\<open>mongoTimestamp.MongoTimestamp\<close>\<close>

text \<open>
  Of the embedded \<^verbatim>\<open>time.Time\<close> the method reads \<^verbatim>\<open>Unix()\<close> only, so an instant is
  its Unix-seconds value. \<^verbatim>\<open>uint32(x)\<close> keeps the low 32 bits of the \<^verbatim>\<open>int64\<close>.
  \<^verbatim>\<open>PutUint32\<close> stores the value big-endian in \<open>b[0..3]\<close>; \<^verbatim>\<open>binary.Read\<close> into a
  \<^verbatim>\<open>uint64\<close> decodes the first eight bytes of the reader big-endian (twelve bytes are
  available, so the read cannot fail); the conversion to \<^verbatim>\<open>bson.MongoTimestamp\<close>
  (an \<^verbatim>\<open>int64\<close>) keeps all 64 bits.
\<close>

type_synonym time = int

definition uint32 :: "int \<Rightarrow> 32 word" where
  "uint32 x = word_of_int x"

definition PutUint32 :: "8 word list \<Rightarrow> 32 word \<Rightarrow> 8 word list" where
  "PutUint32 b v =
     b[0 := ucast (drop_bit 24 v), 1 := ucast (drop_bit 16 v),
       2 := ucast (drop_bit 8 v), 3 := ucast v]"

definition Uint64 :: "8 word list \<Rightarrow> 64 word" where
  "Uint64 b =
     ucast (b ! 7) OR push_bit 8 (ucast (b ! 6)) OR push_bit 16 (ucast (b ! 5)) OR
     push_bit 24 (ucast (b ! 4)) OR push_bit 32 (ucast (b ! 3)) OR
     push_bit 40 (ucast (b ! 2)) OR push_bit 48 (ucast (b ! 1)) OR
     push_bit 56 (ucast (b ! 0))"

definition MongoTimestamp :: "time \<Rightarrow> 64 word" where
  "MongoTimestamp m =
     (let b = replicate 12 0;
          b = (PutUint32 (take 4 b) (uint32 m)) @ drop 4 b;
          result = Uint64 (take 8 b)
      in result)"

section \<open>The dispatcher: \<^verbatim>\<open>analyzeResult\<close>\<close>

text \<open>
  Modelled from the spec: \<^verbatim>\<open>Watch\<close> is declared outside \<^verbatim>\<open>tail.go\<close>; it is a rule
  with a fully qualified \<open>TargetCollection\<close> and \<open>TrackCollection\<close>, the two fields the
  dispatcher reads.
\<close>

record Watch =
  TargetCollection :: string
  TrackCollection :: string

text \<open>\<^verbatim>\<open>mgo.DBRef\<close>; its \<^verbatim>\<open>Id\<close> field is an interface value.\<close>

record DBRef =
  Collection :: string
  Id_ref :: iface
  Database :: string

text \<open>
  What a run of the dispatcher does to the outside: the tracker methods it invokes, with
  their arguments, and the lines it logs (without the trailing newline). The session
  copy, its deferred close and the construction of the tracker touch only the external
  session and are left out.
\<close>

datatype effect =
    HandleInsert Watch document DBRef
  | HandleUpdate Watch document document
  | HandleRemove Watch document document
  | LogLine string

datatype status = Done | Panicked

datatype flow = Continue | Return | Panic

text \<open>One pass of the body of \<^verbatim>\<open>for _, w := range watches\<close>.\<close>

definition dispatch_watch ::
  "document \<Rightarrow> string \<Rightarrow> string \<Rightarrow> string \<Rightarrow> string \<Rightarrow> document \<Rightarrow> DBRef \<Rightarrow> Watch
     \<Rightarrow> effect list \<times> flow" where
  "dispatch_watch ds triggerDB triggerCollection operationType namespace command triggerRef w =
     (if operationType = ''i'' then
        ((if TargetCollection w = namespace then [HandleInsert w command triggerRef] else []),
         Continue)
      else if operationType = ''u'' then
        (case (if TargetCollection w = namespace then
                 (case must_map (index_map ds ''o2'') of
                    None \<Rightarrow> None
                  | Some o2 \<Rightarrow>
                      (case must_ObjectId (index_map o2 ''_id'') of
                         None \<Rightarrow> None
                       | Some i \<Rightarrow>
                           Some [HandleInsert w command
                                   \<lparr>Collection = triggerCollection,
                                    Id_ref = Some (VObjectId i),
                                    Database = triggerDB\<rparr>]))
               else Some []) of
           None \<Rightarrow> ([], Panic)
         | Some es \<Rightarrow>
             (es @
              (if TrackCollection w = namespace then
                 (case assert_map (index_map ds ''o2'') of
                    (selector, ok) \<Rightarrow> if ok then [HandleUpdate w command selector] else [])
               else []),
              Continue))
      else if operationType = ''d'' then
        ((if TrackCollection w = namespace then
            (case assert_map (index_map ds ''o2'') of
               (selector, ok) \<Rightarrow> if ok then [HandleRemove w command selector] else [])
          else []),
         Continue)
      else if operationType = ''c'' then ([], Continue)
      else ([LogLine (''unsupported operation '' @ operationType @ ''.'')], Return))"

text \<open>
  The loop over the watches: \<open>Return\<close> leaves the function, a panic unwinds it (and,
  nothing recovering it, ends the process).
\<close>

fun range_watches :: "(Watch \<Rightarrow> effect list \<times> flow) \<Rightarrow> Watch list \<Rightarrow> effect list \<times> status" where
  "range_watches body [] = ([], Done)"
| "range_watches body (w # ws) =
     (case body w of
        (es, Continue) \<Rightarrow> (case range_watches body ws of (es', st) \<Rightarrow> (es @ es', st))
      | (es, Return) \<Rightarrow> (es, Done)
      | (es, Panic) \<Rightarrow> (es, Panicked))"

definition analyzeResult :: "document \<Rightarrow> Watch list \<Rightarrow> effect list \<times> status" where
  "analyzeResult ds w =
     (case NewOplogQuery ds of
        Inl err \<Rightarrow> ([LogLine (error_message err)], Done)
      | Inr query \<Rightarrow>
          let watches = w;
              triggerDB = DB query;
              triggerCollection = C query;
              operationType = OP query;
              namespace = triggerDB @ ''.'' @ triggerCollection
          in
            (case assert_map (index_map ds ''o'') of
               (command, ok) \<Rightarrow>
                 if ok then
                   let triggerID = fst (assert_ObjectId (index_map command ''_id''));
                       triggerRef = \<lparr>Collection = triggerCollection,
                                     Id_ref = Some (VObjectId triggerID),
                                     Database = triggerDB\<rparr>
                   in range_watches
                        (dispatch_watch ds triggerDB triggerCollection operationType namespace
                           command triggerRef)
                        watches
                 else ([], Done)))"

definition tracker_calls :: "effect list \<Rightarrow> effect list" where
  "tracker_calls es = filter (\<lambda>e. case e of LogLine _ \<Rightarrow> False | _ \<Rightarrow> True) es"

definition log_output :: "effect list \<Rightarrow> string list" where
  "log_output es = concat (map (\<lambda>e. case e of LogLine l \<Rightarrow> [l] | _ \<Rightarrow> []) es)"

section \<open>The reference resolver: \<^verbatim>\<open>getReference\<close>\<close>

text \<open>
  The helper \<^verbatim>\<open>GetValue\<close> is not defined in \<^verbatim>\<open>tail.go\<close>: \<open>getReference\<close> takes it as
  a parameter, a function from a key and a target to an interface value.
\<close>

definition getReference ::
  "(string \<Rightarrow> 'a \<Rightarrow> iface) \<Rightarrow> 'a \<Rightarrow> string \<Rightarrow> DBRef \<times> bool" where
  "getReference GetValue target originalDatabase =
     (case assert_ObjectId (GetValue ''$id'' target) of (id', okID) \<Rightarrow>
      case assert_string (GetValue ''$ref'' target) of (col, okRef) \<Rightarrow>
      case assert_string (GetValue ''$db'' target) of (db', okDb) \<Rightarrow>
        let db' = (if \<not> okDb then originalDatabase else db')
        in (\<lparr>Collection = col, Id_ref = Some (VObjectId id'), Database = db'\<rparr>, okID \<and> okRef))"

text \<open>The zero value of \<^verbatim>\<open>mgo.DBRef\<close>.\<close>

definition zero_DBRef :: DBRef where
  "zero_DBRef = \<lparr>Collection = [], Id_ref = None, Database = []\<rparr>"

section \<open>The tail loop: \<^verbatim>\<open>TailAgent.Tail\<close>\<close>

text \<open>
  \<^verbatim>\<open>for k, v := range result { copyResult[k] = v }\<close> into a map made empty: every key
  of the source is visited once and assigned. The values are assigned as they are.
\<close>

definition copy_entries :: "(string \<times> 'v) list \<Rightarrow> (string \<times> 'v) list" where
  "copy_entries result = fold (\<lambda>(k, v) copyResult. AList.update k v copyResult) (AList.clearjunk result) []"

subsection \<open>Maps in memory\<close>

text \<open>
  In memory a Go map is a reference: an interface value that holds a nested document
  holds the address of that map. The store is the list of the maps allocated so far, an
  address is an index into it, and \<^verbatim>\<open>make\<close> appends a new cell.
\<close>

type_synonym addr = nat

datatype ival =
    IString string
  | IObjectId string
  | ITimestamp "64 word"
  | IInt int
  | IBool bool
  | IMap addr

type_synonym gomap = "(string \<times> ival) list"
type_synonym store = "gomap list"

definition load :: "store \<Rightarrow> addr \<Rightarrow> gomap" where
  "load h a = (if a < length h then h ! a else [])"

text \<open>The one-valued assertion \<^verbatim>\<open>x.(bson.MongoTimestamp)\<close>; \<open>None\<close> is the panic.\<close>

fun must_Timestamp :: "ival option \<Rightarrow> 64 word option" where
  "must_Timestamp (Some (ITimestamp t)) = Some t"
| "must_Timestamp _ = None"

text \<open>
  \<^verbatim>\<open>copyResult := make(map[string]interface{})\<close> followed by the \<^verbatim>\<open>range\<close> loop:
  the address of the copy and the store afterwards.
\<close>

definition copy_result :: "store \<Rightarrow> addr \<Rightarrow> addr \<times> store" where
  "copy_result h result =
     (let copyResult = length h;
          h = h @ [[]]
      in (copyResult, h[copyResult := copy_entries (load h result)]))"

text \<open>\<^verbatim>\<open>m[k] = v\<close> on the map at an address.\<close>

definition store_assign :: "store \<Rightarrow> addr \<Rightarrow> string \<Rightarrow> ival \<Rightarrow> store" where
  "store_assign h a k v = h[a := AList.update k v (load h a)]"

text \<open>The nested documents a map refers to, and those two maps both refer to.\<close>

definition doc_refs :: "gomap \<Rightarrow> addr list" where
  "doc_refs m = concat (map (\<lambda>(k, v). case v of IMap a \<Rightarrow> [a] | _ \<Rightarrow> []) m)"

definition shared_docs :: "store \<Rightarrow> addr \<Rightarrow> addr \<Rightarrow> addr list" where
  "shared_docs h a b = filter (\<lambda>x. x \<in> set (doc_refs (load h b))) (doc_refs (load h a))"

text \<open>
  \<^verbatim>\<open>m[k]\<close> read as a nested document, and \<^verbatim>\<open>m[k].(map[string]interface{})[k'] = v\<close>,
  a write into the nested document under a key.
\<close>

definition nested :: "store \<Rightarrow> addr \<Rightarrow> string \<Rightarrow> gomap option" where
  "nested h a k = (case map_of (load h a) k of Some (IMap b) \<Rightarrow> Some (load h b) | _ \<Rightarrow> None)"

definition assign_nested :: "store \<Rightarrow> addr \<Rightarrow> string \<Rightarrow> string \<Rightarrow> ival \<Rightarrow> store" where
  "assign_nested h a k k' v =
     (case map_of (load h a) k of Some (IMap b) \<Rightarrow> store_assign h b k' v | _ \<Rightarrow> h)"

text \<open>
  What a reader finds in the store: the value behind an interface value, and the
  document behind an address, nested documents followed to the given depth.
\<close>

fun reify :: "nat \<Rightarrow> store \<Rightarrow> ival \<Rightarrow> bval" where
  "reify n h (IString s) = VString s"
| "reify n h (IObjectId i) = VObjectId i"
| "reify n h (ITimestamp t) = VTimestamp t"
| "reify n h (IInt i) = VInt i"
| "reify n h (IBool b) = VBool b"
| "reify 0 h (IMap a) = VDoc []"
| "reify (Suc n) h (IMap a) = VDoc (map (\<lambda>(k, v). (k, reify n h v)) (load h a))"

definition reify_map :: "nat \<Rightarrow> store \<Rightarrow> addr \<Rightarrow> document" where
  "reify_map n h a = map (\<lambda>(k, v). (k, reify n h v)) (load h a)"

subsection \<open>The log source and the quit channel\<close>

text \<open>
  Of the agent the loop reads the configured watches and the start time. The log source
  and the quit channel are the environment: a script with one \<open>round\<close> for each pass of
  the outer \<^verbatim>\<open>for\<close>, saying whether the poll of \<^verbatim>\<open>quit\<close> receives a value, which
  entries \<^verbatim>\<open>iter.Next\<close> then yields before it returns false, and how the cursor stands
  afterwards: with an error (\<^verbatim>\<open>iter.Err() != nil\<close>, carrying what \<^verbatim>\<open>iter.Close()\<close>
  returns), timed out, or dead without either.
\<close>

record TailAgent =
  Watches :: "Watch list"
  startTime :: time

datatype cursor_end = CursorErr "string option" | CursorTimeout | CursorDead

record round =
  quit_recv :: "bool option"
  batch :: "document list"
  cursor_end :: cursor_end

text \<open>
  An entry arrives as a document and \<^verbatim>\<open>iter.Next(&result)\<close> decodes it into memory.
  The decoder belongs to the driver, not to \<^verbatim>\<open>tail.go\<close>; what it does is part of the
  environment, and it is what the copy in the loop is there for. Every nested document
  becomes a map of its own, newly allocated. The fields of the entry go into the map
  \<open>result\<close> refers to: when \<open>result\<close> is nil a map is made for it, and otherwise the map
  it refers to is emptied and filled again, so within a pass the loop reads one entry
  after the other into the same map.
\<close>

fun decode_val :: "bval \<Rightarrow> store \<Rightarrow> ival \<times> store"
  and decode_fields :: "(string \<times> bval) list \<Rightarrow> store \<Rightarrow> gomap \<times> store" where
  "decode_val (VString s) h = (IString s, h)"
| "decode_val (VObjectId i) h = (IObjectId i, h)"
| "decode_val (VTimestamp t) h = (ITimestamp t, h)"
| "decode_val (VInt i) h = (IInt i, h)"
| "decode_val (VBool b) h = (IBool b, h)"
| "decode_val (VDoc d) h = (case decode_fields d h of (m, h) \<Rightarrow> (IMap (length h), h @ [m]))"
| "decode_fields [] h = ([], h)"
| "decode_fields ((k, v) # rest) h =
     (case decode_val v h of (x, h) \<Rightarrow>
        (case decode_fields rest h of (m, h) \<Rightarrow> ((k, x) # m, h)))"

subsection \<open>The loop\<close>

text \<open>
  The loop's state: \<open>lastTimestamp\<close>, the \<^verbatim>\<open>$gt\<close> filters of the cursors opened so far
  (in order), the addresses of the maps handed to \<^verbatim>\<open>go analyzeResult\<close> (in order),
  the lines logged, the store, and the variable \<open>result\<close> (\<open>None\<close> is nil).
\<close>

record tail_state =
  lastTimestamp :: "64 word"
  cursors :: "64 word list"
  tasks :: "addr list"
  log_lines :: "string list"
  heap :: store
  result :: "addr option"

datatype tail_result = Returned "string option" | TailPanic | StillRunning

text \<open>
  \<^verbatim>\<open>iter.Next(&result)\<close> when the cursor yields an entry: the address \<open>result\<close> holds
  afterwards, and the state.
\<close>

definition iter_Next :: "document \<Rightarrow> tail_state \<Rightarrow> addr \<times> tail_state" where
  "iter_Next entry s =
     (case decode_fields entry (heap s) of
        (m, h) \<Rightarrow>
          (case result s of
             None \<Rightarrow> (length h, s\<lparr>heap := h @ [m], result := Some (length h)\<rparr>)
           | Some r \<Rightarrow> (r, s\<lparr>heap := h[r := m]\<rparr>)))"

text \<open>\<^verbatim>\<open>for iter.Next(&result) { ... }\<close> over the entries the cursor yields.\<close>

fun iter_loop :: "document list \<Rightarrow> tail_state \<Rightarrow> tail_state \<times> status" where
  "iter_loop [] s = (s, Done)"
| "iter_loop (entry # rest) s =
     (case iter_Next entry s of
        (r, s) \<Rightarrow>
          (case must_Timestamp (map_of (load (heap s) r) ''ts'') of
             None \<Rightarrow> (s, Panicked)
           | Some ts \<Rightarrow>
               let s = s\<lparr>lastTimestamp := ts\<rparr>
               in (case copy_result (heap s) r of
                     (copyResult, h) \<Rightarrow>
                       iter_loop rest (s\<lparr>heap := h, tasks := tasks s @ [copyResult]\<rparr>))))"

text \<open>
  The outer loop; \<^verbatim>\<open>var result map[string]interface{}\<close> starts every pass with a nil
  \<open>result\<close>. The loop has no exit of its own: when the script ends it is still running
  (\<open>StillRunning\<close>).
\<close>

fun tail_loop :: "round list \<Rightarrow> tail_state \<Rightarrow> tail_state \<times> tail_result" where
  "tail_loop [] s = (s, StillRunning)"
| "tail_loop (r # rs) s =
     (case quit_recv r of
        Some _ \<Rightarrow> (s\<lparr>log_lines := log_lines s @ [''Agent stopped.'']\<rparr>, Returned None)
      | None \<Rightarrow>
          (case iter_loop (batch r) (s\<lparr>result := None\<rparr>) of
             (s, Panicked) \<Rightarrow> (s, TailPanic)
           | (s, Done) \<Rightarrow>
               (case cursor_end r of
                  CursorErr e \<Rightarrow> (s, Returned e)
                | CursorTimeout \<Rightarrow> tail_loop rs s
                | CursorDead \<Rightarrow> tail_loop rs (s\<lparr>cursors := cursors s @ [lastTimestamp s]\<rparr>))))"

definition Tail :: "TailAgent \<Rightarrow> round list \<Rightarrow> bool \<Rightarrow> tail_state \<times> tail_result" where
  "Tail t env forceRescan =
     (let startTime = (if forceRescan then 0 else startTime t)
      in tail_loop env
           \<lparr>lastTimestamp = 0, cursors = [MongoTimestamp startTime], tasks = [],
            log_lines = [], heap = [], result = None\<rparr>)"

text \<open>
  A task reads its dataset through the address it was given, at some later moment, and
  \<open>analyzeResult\<close> only reads it. \<open>task_dataset\<close> is the document a task finds behind
  its address in the store of a state (no document in a store is nested deeper than
  the store has cells), and \<open>task_outcomes\<close> what the submitted tasks do with what
  they find, each run on its own.
\<close>

definition task_dataset :: "tail_state \<Rightarrow> addr \<Rightarrow> document" where
  "task_dataset s c = reify_map (length (heap s)) (heap s) c"

definition task_outcomes :: "TailAgent \<Rightarrow> tail_state \<Rightarrow> (effect list \<times> status) list" where
  "task_outcomes t s = map (\<lambda>c. analyzeResult (task_dataset s c) (Watches t)) (tasks s)"

subsection \<open>What stays true of the submitted maps\<close>

text \<open>
  \<open>settled h r c d\<close>: the map at \<open>c\<close> reads as the document \<open>d\<close>, to any depth that
  the size of \<open>h\<close> allows, in every store that agrees with \<open>h\<close> on the cells of \<open>h\<close>
  other than the one \<open>r\<close> refers to. \<open>loop_inv s ds\<close>: the maps handed out so far are
  settled on the documents \<open>ds\<close>, they are different maps, none of them is the map
  \<open>result\<close> refers to, and all these addresses are allocated.
\<close>

definition settled :: "store \<Rightarrow> addr option \<Rightarrow> addr \<Rightarrow> document \<Rightarrow> bool" where
  "settled h r c d =
     (\<forall>h'' n. (\<forall>a < length h. r \<noteq> Some a \<longrightarrow> load h'' a = load h a) \<longrightarrow> length h \<le> n \<longrightarrow>
        reify_map n h'' c = d)"

definition loop_inv :: "tail_state \<Rightarrow> document list \<Rightarrow> bool" where
  "loop_inv s ds =
     (list_all2 (settled (heap s) (result s)) (tasks s) ds
      \<and> distinct (tasks s)
      \<and> (\<forall>c \<in> set (tasks s). c < length (heap s) \<and> result s \<noteq> Some c)
      \<and> (\<forall>r. result s = Some r \<longrightarrow> r < length (heap s)))"

section \<open>Properties of the parser\<close>

lemma index_from_char:
  "index_from s [d] i =
     (if d \<in> set s then i + int (length (takeWhile (\<lambda>c. c \<noteq> d) s)) else - 1)"
  by (induction s arbitrary: i) (auto simp: has_prefix_def)

lemma strings_Index_dot_absent:
  "CHR ''.'' \<notin> set s \<Longrightarrow> strings_Index s ''.'' = - 1"
  by (simp add: strings_Index_def index_from_char)

lemma takeWhile_until_first:
  "x \<notin> set d \<Longrightarrow> takeWhile (\<lambda>c. c \<noteq> x) (d @ x # r) = d"
  by (induction d) auto

lemma strings_Index_first_dot:
  "CHR ''.'' \<notin> set d \<Longrightarrow> strings_Index (d @ ''.'' @ r) ''.'' = int (length d)"
  by (simp add: strings_Index_def index_from_char takeWhile_until_first)

lemma NewOplogQuery_split:
  assumes "CHR ''.'' \<notin> set d" and "index_map ds ''ns'' = Some (VString (d @ ''.'' @ r))"
  shows "NewOplogQuery ds = Inr \<lparr>dataset = ds, db = d, collection = r\<rparr>"
proof -
  have p: "strings_Index (d @ ''.'' @ r) ''.'' = int (length d)"
    using assms(1) by (rule strings_Index_first_dot)
  have n: "nat (int (length d) + 1) = Suc (length d)"
    by simp
  show ?thesis
    using assms(2) p by (simp add: NewOplogQuery_def Let_def n)
qed

lemma NewOplogQuery_fails:
  assumes "case index_map ds ''ns'' of Some (VString s) \<Rightarrow> s = [] \<or> CHR ''.'' \<notin> set s | _ \<Rightarrow> True"
  shows "NewOplogQuery ds = Inl (if fst (assert_string (index_map ds ''ns'')) = [] then NamespaceNotGiven else InvalidNamespace)"
proof (cases "index_map ds ''ns''")
  case None
  then show ?thesis by (simp add: NewOplogQuery_def)
next
  case (Some v)
  with assms show ?thesis
    by (cases v) (auto simp: NewOplogQuery_def Let_def strings_Index_dot_absent)
qed

section \<open>Properties of the dispatcher\<close>

lemma NewOplogQuery_dataset:
  "NewOplogQuery ds = Inr q \<Longrightarrow> dataset q = ds"
  by (auto simp: NewOplogQuery_def Let_def split: prod.splits if_splits)

lemma NewOplogQuery_OP:
  "NewOplogQuery ds = Inr q \<Longrightarrow> OP q = (case assert_string (index_map ds ''op'') of (s, ok) \<Rightarrow> if ok then s else [])"
  by (simp add: OP_def NewOplogQuery_dataset)

lemma range_watches_silent:
  "(\<And>w. body w = ([], Continue)) \<Longrightarrow> range_watches body ws = ([], Done)"
  by (induction ws) simp_all

lemma range_watches_Continue:
  "(\<And>w. w \<in> set ws \<Longrightarrow> body w = (f w, Continue)) \<Longrightarrow>
   range_watches body ws = (concat (map f ws), Done)"
  by (induction ws) simp_all

subsection \<open>Namespace parsing\<close>

text \<open>
  Claim C4. When \<open>ns\<close> is a string \<open>d.r\<close> with no dot in \<open>d\<close>, \<open>NewOplogQuery\<close>
  succeeds with database \<open>d\<close> (the text before the first dot) and collection \<open>r\<close>
  (everything after it, dots included). When \<open>ns\<close> is absent, not a string, empty or
  without a dot, it fails with an error.
\<close>

theorem C4_parse_namespace:
  "(CHR ''.'' \<notin> set d \<and> index_map ds ''ns'' = Some (VString (d @ ''.'' @ r)) \<longrightarrow>
      (\<exists>q. NewOplogQuery ds = Inr q \<and> DB q = d \<and> C q = r))
   \<and> ((case index_map ds ''ns'' of
          Some (VString s) \<Rightarrow> s = [] \<or> CHR ''.'' \<notin> set s
        | _ \<Rightarrow> True) \<longrightarrow>
      (\<exists>e. NewOplogQuery ds = Inl e))"
proof (intro conjI impI)
  assume "CHR ''.'' \<notin> set d \<and> index_map ds ''ns'' = Some (VString (d @ ''.'' @ r))"
  then have "NewOplogQuery ds = Inr \<lparr>dataset = ds, db = d, collection = r\<rparr>"
    by (simp add: NewOplogQuery_split)
  then show "\<exists>q. NewOplogQuery ds = Inr q \<and> DB q = d \<and> C q = r"
    by (simp add: DB_def C_def)
next
  assume "case index_map ds ''ns'' of
            Some (VString s) \<Rightarrow> s = [] \<or> CHR ''.'' \<notin> set s
          | _ \<Rightarrow> True"
  then show "\<exists>e. NewOplogQuery ds = Inl e"
    using NewOplogQuery_fails [of ds] by blast
qed

theorem C4_parse_namespace_witness:
  "(\<exists>q. NewOplogQuery [(''ns'', VString ''db.a.b'')] = Inr q \<and> DB q = ''db'' \<and> C q = ''a.b'')
   \<and> (\<exists>e. NewOplogQuery [(''ns'', VString ''nodot'')] = Inl e)
   \<and> (\<exists>e. NewOplogQuery [(''op'', VString ''i'')] = Inl e)"
proof -
  have h1: "CHR ''.'' \<notin> set ''db'' \<and>
            index_map [(''ns'', VString ''db.a.b'')] ''ns'' = Some (VString (''db'' @ ''.'' @ ''a.b''))"
    by (simp add: index_map_def)
  have h2: "case index_map [(''ns'', VString ''nodot'')] ''ns'' of
              Some (VString s) \<Rightarrow> s = [] \<or> CHR ''.'' \<notin> set s
            | _ \<Rightarrow> True"
    by (simp add: index_map_def)
  have h3: "case index_map [(''op'', VString ''i'')] ''ns'' of
              Some (VString s) \<Rightarrow> s = [] \<or> CHR ''.'' \<notin> set s
            | _ \<Rightarrow> True"
    by (simp add: index_map_def)
  from C4_parse_namespace [of "''db''" "[(''ns'', VString ''db.a.b'')]" "''a.b''"] h1
  have a: "\<exists>q. NewOplogQuery [(''ns'', VString ''db.a.b'')] = Inr q \<and> DB q = ''db'' \<and> C q = ''a.b''"
    by blast
  from C4_parse_namespace [of d "[(''ns'', VString ''nodot'')]" r] h2
  have b: "\<exists>e. NewOplogQuery [(''ns'', VString ''nodot'')] = Inl e"
    by blast
  from C4_parse_namespace [of d "[(''op'', VString ''i'')]" r] h3
  have c: "\<exists>e. NewOplogQuery [(''op'', VString ''i'')] = Inl e"
    by blast
  from a b c show ?thesis by blast
qed

subsection \<open>Command operations\<close>

text \<open>
  Claim C8. For an entry whose \<open>op\<close> is \<open>"c"\<close> and for every list of watches, a run of
  \<open>analyzeResult\<close> invokes no tracker method (no \<open>HandleInsert\<close>, \<open>HandleUpdate\<close> or
  \<open>HandleRemove\<close> among its effects) and ends normally.
\<close>

theorem C8_command_ignored:
  assumes "index_map ds ''op'' = Some (VString ''c'')"
  shows "tracker_calls (fst (analyzeResult ds ws)) = [] \<and> snd (analyzeResult ds ws) = Done"
proof (cases "NewOplogQuery ds")
  case (Inl e)
  then show ?thesis by (simp add: analyzeResult_def tracker_calls_def)
next
  case (Inr q)
  have op: "OP q = ''c''"
    using Inr assms by (simp add: NewOplogQuery_OP)
  have loop: "\<And>a b n cmd ref. range_watches (dispatch_watch ds a b ''c'' n cmd ref) ws = ([], Done)"
    by (rule range_watches_silent) (simp add: dispatch_watch_def)
  show ?thesis
    using Inr op
    by (simp add: analyzeResult_def Let_def tracker_calls_def loop split: prod.splits)
qed

theorem C8_command_ignored_witness:
  "index_map [(''ns'', VString ''a.b''), (''op'', VString ''c''), (''o'', VDoc [(''drop'', VString ''b'')])] ''op''
     = Some (VString ''c'')
   \<and> tracker_calls (fst (analyzeResult
         [(''ns'', VString ''a.b''), (''op'', VString ''c''), (''o'', VDoc [(''drop'', VString ''b'')])]
         [\<lparr>TargetCollection = ''a.b'', TrackCollection = ''a.b''\<rparr>])) = []
   \<and> snd (analyzeResult
         [(''ns'', VString ''a.b''), (''op'', VString ''c''), (''o'', VDoc [(''drop'', VString ''b'')])]
         [\<lparr>TargetCollection = ''a.b'', TrackCollection = ''a.b''\<rparr>]) = Done"
proof -
  have h: "index_map [(''ns'', VString ''a.b''), (''op'', VString ''c''), (''o'', VDoc [(''drop'', VString ''b'')])] ''op''
             = Some (VString ''c'')"
    by (simp add: index_map_def)
  from C8_command_ignored [OF h] h show ?thesis by blast
qed

subsection \<open>Entries without a document \<open>o\<close>\<close>

text \<open>
  Claim C10. For an entry that reaches the dispatch, that is, one whose namespace
  parses, and whose \<open>o\<close> is absent or not a document: \<open>analyzeResult\<close> does nothing. It
  invokes no tracker method for any watch and logs no line, whatever the operation
  kind (an unknown kind is not reported) and whatever the watches (a watch on the
  entry's namespace is not served).
\<close>

theorem C10_no_document_no_dispatch:
  assumes "NewOplogQuery ds = Inr q"
    and "\<nexists>m. index_map ds ''o'' = Some (VDoc m)"
  shows "analyzeResult ds ws = ([], Done)
         \<and> tracker_calls (fst (analyzeResult ds ws)) = []
         \<and> log_output (fst (analyzeResult ds ws)) = []"
proof -
  have "snd (assert_map (index_map ds ''o'')) = False"
    using assms(2) by (cases "index_map ds ''o''" rule: assert_map.cases) auto
  with assms(1) have "analyzeResult ds ws = ([], Done)"
    by (auto simp: analyzeResult_def Let_def split: prod.splits)
  then show ?thesis
    by (simp add: tracker_calls_def log_output_def)
qed

text \<open>
  An entry of unknown kind whose \<open>o\<close> is a string, and an insert with no \<open>o\<close> at all,
  each with a watch on its namespace.
\<close>

theorem C10_no_document_no_dispatch_witness:
  "analyzeResult [(''ns'', VString ''a.b''), (''op'', VString ''zz''), (''o'', VString ''text'')]
     [\<lparr>TargetCollection = ''a.b'', TrackCollection = ''a.b''\<rparr>] = ([], Done)
   \<and> analyzeResult [(''ns'', VString ''a.b''), (''op'', VString ''i'')]
       [\<lparr>TargetCollection = ''a.b'', TrackCollection = ''a.b''\<rparr>] = ([], Done)"
proof -
  let ?d1 = "[(''ns'', VString ''a.b''), (''op'', VString ''zz''), (''o'', VString ''text'')]"
  let ?d2 = "[(''ns'', VString ''a.b''), (''op'', VString ''i'')]"
  let ?ws = "[\<lparr>TargetCollection = ''a.b'', TrackCollection = ''a.b''\<rparr>]"
  have p1: "NewOplogQuery ?d1 = Inr \<lparr>dataset = ?d1, db = ''a'', collection = ''b''\<rparr>"
    by (simp add: NewOplogQuery_def index_map_def strings_Index_def has_prefix_def)
  have p2: "NewOplogQuery ?d2 = Inr \<lparr>dataset = ?d2, db = ''a'', collection = ''b''\<rparr>"
    by (simp add: NewOplogQuery_def index_map_def strings_Index_def has_prefix_def)
  have n1: "\<nexists>m. index_map ?d1 ''o'' = Some (VDoc m)"
    by (simp add: index_map_def)
  have n2: "\<nexists>m. index_map ?d2 ''o'' = Some (VDoc m)"
    by (simp add: index_map_def)
  from C10_no_document_no_dispatch [OF p1 n1, of ?ws]
       C10_no_document_no_dispatch [OF p2 n2, of ?ws]
  show ?thesis by blast
qed

subsection \<open>Update entries\<close>

text \<open>
  Claim C5 as stated fails at an entry with \<open>op\<close> \<open>"u"\<close> and no \<open>o\<close>, and a watch
  whose two collections are its namespace: neither handler is invoked.
\<close>

theorem C5_update_without_document:
  "index_map [(''ns'', VString ''a.b''), (''op'', VString ''u''),
              (''o2'', VDoc [(''_id'', VObjectId ''k'')])] ''op'' = Some (VString ''u'')
   \<and> analyzeResult
        [(''ns'', VString ''a.b''), (''op'', VString ''u''),
         (''o2'', VDoc [(''_id'', VObjectId ''k'')])]
        [\<lparr>TargetCollection = ''a.b'', TrackCollection = ''a.b''\<rparr>] = ([], Done)"
  by (simp add: analyzeResult_def NewOplogQuery_def strings_Index_def has_prefix_def
        index_map_def)

text \<open>
  Claim C5, amended. For an update entry (\<open>op\<close> is \<open>"u"\<close>) whose \<open>o\<close> is a document and
  whose \<open>o2\<close> is a document with an object identifier \<open>_id\<close>, every watch contributes,
  in the order of the list, a \<open>HandleInsert\<close> when its \<open>TargetCollection\<close> is the
  namespace and then a \<open>HandleUpdate\<close> when its \<open>TrackCollection\<close> is: two independent
  tests. A watch with both equal to the namespace gets both calls: \<open>HandleInsert\<close> with
  \<open>o\<close> and a reference whose id is \<open>o2._id\<close>, and \<open>HandleUpdate\<close> with \<open>o\<close> and \<open>o2\<close>.
\<close>

theorem C5_update_fires_both:
  assumes "CHR ''.'' \<notin> set d"
    and "index_map ds ''ns'' = Some (VString (d @ ''.'' @ r))"
    and "index_map ds ''op'' = Some (VString ''u'')"
    and "index_map ds ''o'' = Some (VDoc cmd)"
    and "index_map ds ''o2'' = Some (VDoc sel)"
    and "index_map sel ''_id'' = Some (VObjectId i)"
  shows "analyzeResult ds ws =
           (concat (map (\<lambda>w.
              (if TargetCollection w = d @ ''.'' @ r
               then [HandleInsert w cmd \<lparr>Collection = r, Id_ref = Some (VObjectId i), Database = d\<rparr>]
               else []) @
              (if TrackCollection w = d @ ''.'' @ r then [HandleUpdate w cmd sel] else [])) ws),
            Done)
         \<and> (\<forall>w \<in> set ws.
               TargetCollection w = d @ ''.'' @ r \<and> TrackCollection w = d @ ''.'' @ r \<longrightarrow>
               HandleInsert w cmd \<lparr>Collection = r, Id_ref = Some (VObjectId i), Database = d\<rparr>
                 \<in> set (fst (analyzeResult ds ws))
               \<and> HandleUpdate w cmd sel \<in> set (fst (analyzeResult ds ws)))"
proof -
  let ?ns = "d @ ''.'' @ r"
  let ?f = "\<lambda>w.
     (if TargetCollection w = ?ns
      then [HandleInsert w cmd \<lparr>Collection = r, Id_ref = Some (VObjectId i), Database = d\<rparr>]
      else []) @
     (if TrackCollection w = ?ns then [HandleUpdate w cmd sel] else [])"
  have q: "NewOplogQuery ds = Inr \<lparr>dataset = ds, db = d, collection = r\<rparr>"
    using assms(1,2) by (rule NewOplogQuery_split)
  have op: "OP \<lparr>dataset = ds, db = d, collection = r\<rparr> = ''u''"
    using assms(3) by (simp add: OP_def)
  have body: "\<And>ref w. dispatch_watch ds d r ''u'' ?ns cmd ref w = (?f w, Continue)"
    using assms(5,6) by (simp add: dispatch_watch_def)
  have loop: "\<And>ref. range_watches (dispatch_watch ds d r ''u'' ?ns cmd ref) ws
                  = (concat (map ?f ws), Done)"
    by (rule range_watches_Continue) (rule body)
  have run: "analyzeResult ds ws = (concat (map ?f ws), Done)"
    using q op assms(4) loop by (simp add: analyzeResult_def Let_def DB_def C_def)
  have "\<forall>w \<in> set ws.
          TargetCollection w = ?ns \<and> TrackCollection w = ?ns \<longrightarrow>
          HandleInsert w cmd \<lparr>Collection = r, Id_ref = Some (VObjectId i), Database = d\<rparr>
            \<in> set (concat (map ?f ws))
          \<and> HandleUpdate w cmd sel \<in> set (concat (map ?f ws))"
    by auto
  with run show ?thesis by simp
qed

text \<open>
  An update of \<open>a.b.c\<close> whose \<open>o\<close> carries another \<open>_id\<close> than the selector: the
  reference takes the selector's.
\<close>

theorem C5_update_fires_both_witness:
  "analyzeResult
     [(''ns'', VString ''a.b.c''), (''op'', VString ''u''),
      (''o'', VDoc [(''_id'', VObjectId ''other''), (''n'', VInt 1)]),
      (''o2'', VDoc [(''_id'', VObjectId ''k'')])]
     [\<lparr>TargetCollection = ''a.b.c'', TrackCollection = ''a.b.c''\<rparr>]
   = ([HandleInsert \<lparr>TargetCollection = ''a.b.c'', TrackCollection = ''a.b.c''\<rparr>
         [(''_id'', VObjectId ''other''), (''n'', VInt 1)]
         \<lparr>Collection = ''b.c'', Id_ref = Some (VObjectId ''k''), Database = ''a''\<rparr>,
       HandleUpdate \<lparr>TargetCollection = ''a.b.c'', TrackCollection = ''a.b.c''\<rparr>
         [(''_id'', VObjectId ''other''), (''n'', VInt 1)]
         [(''_id'', VObjectId ''k'')]],
      Done)"
proof -
  let ?cmd = "[(''_id'', VObjectId ''other''), (''n'', VInt 1)]"
  let ?sel = "[(''_id'', VObjectId ''k'')]"
  let ?ds = "[(''ns'', VString ''a.b.c''), (''op'', VString ''u''), (''o'', VDoc ?cmd),
              (''o2'', VDoc ?sel)]"
  have h1: "CHR ''.'' \<notin> set ''a''" by simp
  have h2: "index_map ?ds ''ns'' = Some (VString (''a'' @ ''.'' @ ''b.c''))"
    by (simp add: index_map_def)
  have h3: "index_map ?ds ''op'' = Some (VString ''u'')" by (simp add: index_map_def)
  have h4: "index_map ?ds ''o'' = Some (VDoc ?cmd)" by (simp add: index_map_def)
  have h5: "index_map ?ds ''o2'' = Some (VDoc ?sel)" by (simp add: index_map_def)
  have h6: "index_map ?sel ''_id'' = Some (VObjectId ''k'')" by (simp add: index_map_def)
  from C5_update_fires_both [OF h1 h2 h3 h4 h5 h6,
      of "[\<lparr>TargetCollection = ''a.b.c'', TrackCollection = ''a.b.c''\<rparr>]"]
  show ?thesis by simp
qed

section \<open>Properties of the timestamp codec\<close>

lemma replicate_12: "replicate 12 x = [x, x, x, x, x, x, x, x, x, x, x, x]"
  by (simp add: eval_nat_numeral)

lemma update_first_four:
  "[x0, x1, x2, x3][0 := a, 1 := b, 2 := c, 3 := d] = [a, b, c, d]"
  by (simp add: eval_nat_numeral)

lemma MongoTimestamp_bytes:
  "MongoTimestamp m =
     push_bit 32 (ucast (ucast (uint32 m) :: 8 word)) OR
     push_bit 40 (ucast (ucast (drop_bit 8 (uint32 m)) :: 8 word)) OR
     push_bit 48 (ucast (ucast (drop_bit 16 (uint32 m)) :: 8 word)) OR
     push_bit 56 (ucast (ucast (drop_bit 24 (uint32 m)) :: 8 word))"
proof -
  have b: "PutUint32 (take 4 (replicate 12 0)) (uint32 m) @ drop 4 (replicate 12 0) =
        [ucast (drop_bit 24 (uint32 m)), ucast (drop_bit 16 (uint32 m)),
         ucast (drop_bit 8 (uint32 m)), ucast (uint32 m), 0, 0, 0, 0, 0, 0, 0, 0]"
    unfolding PutUint32_def replicate_12 by (simp add: update_first_four)
  show ?thesis
    unfolding MongoTimestamp_def Let_def b by (simp add: Uint64_def)
qed

lemma bytes_reassemble:
  fixes v :: "32 word"
  shows "push_bit 32 (ucast (ucast v :: 8 word)) OR
     push_bit 40 (ucast (ucast (drop_bit 8 v) :: 8 word)) OR
     push_bit 48 (ucast (ucast (drop_bit 16 v) :: 8 word)) OR
     push_bit 56 (ucast (ucast (drop_bit 24 v) :: 8 word)) = (push_bit 32 (ucast v) :: 64 word)"
    (is "?l = ?r")
proof (rule bit_word_eqI)
  fix n :: nat
  assume "n < LENGTH(64)"
  then have n: "n < 64" by simp
  consider "n < 32" | k where "n = 32 + k" "k < 8" | k where "n = 40 + k" "k < 8"
    | k where "n = 48 + k" "k < 8" | k where "n = 56 + k" "k < 8"
  proof -
    have "n < 32 \<or> (\<exists>k<8. n = 32 + k) \<or> (\<exists>k<8. n = 40 + k) \<or> (\<exists>k<8. n = 48 + k)
            \<or> (\<exists>k<8. n = 56 + k)"
      using n by presburger
    then show ?thesis using that by blast
  qed
  then show "bit ?l n = bit ?r n"
    by cases (auto simp: bit_simps)
qed

lemma MongoTimestamp_shift: "MongoTimestamp m = push_bit 32 (ucast (uint32 m))"
  by (simp only: MongoTimestamp_bytes bytes_reassemble)

lemma MongoTimestamp_high: "uint (drop_bit 32 (MongoTimestamp m)) = m mod 2 ^ 32"
proof -
  have "drop_bit 32 (push_bit 32 (ucast (uint32 m) :: 64 word)) = ucast (uint32 m)"
    by (rule bit_word_eqI) (auto simp: bit_simps dest: bit_imp_le_length)
  then have "uint (drop_bit 32 (MongoTimestamp m)) = uint (ucast (uint32 m) :: 64 word)"
    by (simp add: MongoTimestamp_shift)
  also have "\<dots> = uint (uint32 m)"
    by (simp add: uint_up_ucast is_up)
  also have "\<dots> = m mod 2 ^ 32"
    by (simp add: uint32_def uint_word_of_int)
  finally show ?thesis .
qed

lemma MongoTimestamp_low: "take_bit 32 (MongoTimestamp m) = 0"
  unfolding MongoTimestamp_shift by (rule bit_word_eqI) (auto simp: bit_simps)

text \<open>
  Claim C7 as stated fails outside \<open>[0, 2^32)\<close>. The second that follows 06:28:15 UTC
  on 7 February 2106 has Unix seconds \<open>2^32\<close>: its timestamp is 0, so the high half is
  not the Unix-seconds value. Go's zero \<^verbatim>\<open>time.Time\<close> has Unix seconds
  \<open>-62135596800\<close>; the high half of its timestamp is not that value either.
\<close>

theorem C7_high_bits_wrap:
  "uint (drop_bit 32 (MongoTimestamp 4294967296)) \<noteq> 4294967296
   \<and> MongoTimestamp 4294967296 = 0
   \<and> uint (drop_bit 32 (MongoTimestamp (- 62135596800))) \<noteq> - 62135596800"
proof -
  have a: "uint (drop_bit 32 (MongoTimestamp 4294967296)) = 0"
    by (simp add: MongoTimestamp_high)
  have b: "MongoTimestamp 4294967296 = 0"
    by (simp add: MongoTimestamp_shift uint32_def)
  have c: "uint (drop_bit 32 (MongoTimestamp (- 62135596800))) = 2288912640"
    by (simp add: MongoTimestamp_high)
  from a b c show ?thesis by simp
qed

text \<open>
  Claim C7, amended. For every instant the high 32 bits of the timestamp are the
  Unix-seconds value modulo \<open>2^32\<close> (what \<^verbatim>\<open>uint32\<close> keeps of it) and the low 32 bits
  are zero; when the Unix-seconds value lies in \<open>[0, 2^32)\<close> the high 32 bits are that
  value. The conversion is a total function of the instant.
\<close>

theorem C7_timestamp_layout:
  "uint (drop_bit 32 (MongoTimestamp m)) = m mod 2 ^ 32
   \<and> take_bit 32 (MongoTimestamp m) = 0
   \<and> (0 \<le> m \<and> m < 2 ^ 32 \<longrightarrow> uint (drop_bit 32 (MongoTimestamp m)) = m)"
proof (intro conjI impI)
  show high: "uint (drop_bit 32 (MongoTimestamp m)) = m mod 2 ^ 32"
    by (rule MongoTimestamp_high)
  show "take_bit 32 (MongoTimestamp m) = 0"
    by (rule MongoTimestamp_low)
  assume "0 \<le> m \<and> m < 2 ^ 32"
  then have "m mod 2 ^ 32 = m" by simp
  with high show "uint (drop_bit 32 (MongoTimestamp m)) = m" by simp
qed

theorem C7_timestamp_layout_witness:
  "uint (drop_bit 32 (MongoTimestamp 1700000000)) = 1700000000
   \<and> take_bit 32 (MongoTimestamp 1700000000) = 0"
proof -
  have h: "(0::int) \<le> 1700000000 \<and> (1700000000::int) < 2 ^ 32" by simp
  from C7_timestamp_layout [of 1700000000] h show ?thesis by blast
qed

section \<open>Properties of the reference resolver\<close>

lemma assert_string_case:
  "assert_string x = (case x of Some (VString s) \<Rightarrow> (s, True) | _ \<Rightarrow> ([], False))"
  by (cases x rule: assert_string.cases) simp_all

lemma assert_ObjectId_case:
  "assert_ObjectId x = (case x of Some (VObjectId i) \<Rightarrow> (i, True) | _ \<Rightarrow> ([], False))"
  by (cases x rule: assert_ObjectId.cases) simp_all

text \<open>
  Claim C6 as stated fails at a value with a \<open>$ref\<close> and no \<open>$id\<close>, resolved with a
  \<open>GetValue\<close> that looks the key up in the document: \<open>ok\<close> is false, and the
  reference returned carries the collection and the default database; it is not the
  zero reference.
\<close>

theorem C6_failed_resolution_not_zero:
  "getReference (\<lambda>k t. index_map t k) [(''$ref'', VString ''coll'')] ''db''
     = (\<lparr>Collection = ''coll'', Id_ref = Some (VObjectId []), Database = ''db''\<rparr>, False)
   \<and> fst (getReference (\<lambda>k t. index_map t k) [(''$ref'', VString ''coll'')] ''db'') \<noteq> zero_DBRef"
  by (simp add: getReference_def index_map_def zero_DBRef_def)

text \<open>
  Claim C6, amended. For every \<open>GetValue\<close>: \<open>ok\<close> is true exactly when \<open>$id\<close> is an
  object identifier and \<open>$ref\<close> is a string; the database is the \<open>$db\<close> string when
  there is one and the default database otherwise. The reference is filled in whether
  or not \<open>ok\<close> holds: its collection is the \<open>$ref\<close> string when well typed (empty
  otherwise) and its id the \<open>$id\<close> identifier when well typed (the empty identifier
  otherwise).
\<close>

theorem C6_reference_resolution:
  "snd (getReference gv t d)
     = ((\<exists>i. gv ''$id'' t = Some (VObjectId i)) \<and> (\<exists>c. gv ''$ref'' t = Some (VString c)))
   \<and> Database (fst (getReference gv t d))
       = (case gv ''$db'' t of Some (VString s) \<Rightarrow> s | _ \<Rightarrow> d)
   \<and> Collection (fst (getReference gv t d))
       = (case gv ''$ref'' t of Some (VString c) \<Rightarrow> c | _ \<Rightarrow> [])
   \<and> Id_ref (fst (getReference gv t d))
       = Some (VObjectId (case gv ''$id'' t of Some (VObjectId i) \<Rightarrow> i | _ \<Rightarrow> []))"
  by (simp add: getReference_def assert_string_case assert_ObjectId_case
           split: option.splits bval.splits)

text \<open>
  A complete reference, one with a \<open>$db\<close>, and one whose \<open>$id\<close> is an integer.
\<close>

theorem C6_reference_resolution_witness:
  "getReference (\<lambda>k t. index_map t k) [(''$ref'', VString ''coll''), (''$id'', VObjectId ''7'')] ''db''
     = (\<lparr>Collection = ''coll'', Id_ref = Some (VObjectId ''7''), Database = ''db''\<rparr>, True)
   \<and> getReference (\<lambda>k t. index_map t k)
        [(''$ref'', VString ''coll''), (''$id'', VObjectId ''7''), (''$db'', VString ''other'')] ''db''
     = (\<lparr>Collection = ''coll'', Id_ref = Some (VObjectId ''7''), Database = ''other''\<rparr>, True)
   \<and> snd (getReference (\<lambda>k t. index_map t k) [(''$ref'', VString ''coll''), (''$id'', VInt 7)] ''db'')
     = False"
proof -
  let ?gv = "\<lambda>k (t :: document). index_map t k"
  let ?t1 = "[(''$ref'', VString ''coll''), (''$id'', VObjectId ''7'')]"
  let ?t2 = "[(''$ref'', VString ''coll''), (''$id'', VObjectId ''7''), (''$db'', VString ''other'')]"
  let ?t3 = "[(''$ref'', VString ''coll''), (''$id'', VInt 7)]"
  have a: "getReference ?gv ?t1 ''db''
             = (\<lparr>Collection = ''coll'', Id_ref = Some (VObjectId ''7''), Database = ''db''\<rparr>, True)"
    using C6_reference_resolution [of ?gv ?t1 "''db''"]
    by (simp add: index_map_def prod_eq_iff DBRef.equality)
  have b: "getReference ?gv ?t2 ''db''
             = (\<lparr>Collection = ''coll'', Id_ref = Some (VObjectId ''7''), Database = ''other''\<rparr>, True)"
    using C6_reference_resolution [of ?gv ?t2 "''db''"]
    by (simp add: index_map_def prod_eq_iff DBRef.equality)
  have c: "snd (getReference ?gv ?t3 ''db'') = False"
    using C6_reference_resolution [of ?gv ?t3 "''db''"]
    by (simp add: index_map_def)
  from a b c show ?thesis by blast
qed

section \<open>Properties of the tail loop\<close>

subsection \<open>The copy loop\<close>

lemma map_of_fold_update:
  "distinct (map fst xs) \<Longrightarrow>
   map_of (fold (\<lambda>(k, v) c. AList.update k v c) xs c) = map_of c ++ map_of xs"
proof (induction xs arbitrary: c)
  case Nil
  then show ?case by simp
next
  case (Cons x xs)
  obtain k v where x: "x = (k, v)" by (cases x)
  from Cons.prems x have fresh: "map_of xs k = None" and d: "distinct (map fst xs)"
    by (auto simp: map_of_eq_None_iff)
  have "fold (\<lambda>(k, v) c. AList.update k v c) (x # xs) c
          = fold (\<lambda>(k, v) c. AList.update k v c) xs (AList.update k v c)"
    by (simp add: x)
  also have "map_of \<dots> = map_of (AList.update k v c) ++ map_of xs"
    by (rule Cons.IH [OF d])
  also have "\<dots> = (map_of c)(k \<mapsto> v) ++ map_of xs"
    by (simp only: update_conv')
  also have "\<dots> = map_of c ++ map_of (x # xs)"
    using fresh x by (auto simp: fun_eq_iff map_add_def split: option.splits)
  finally show ?case .
qed

lemma map_of_copy_entries: "map_of (copy_entries m) = map_of m"
  by (simp add: copy_entries_def map_of_fold_update map_of_clearjunk)

lemma update_fresh: "k \<notin> fst ` set c \<Longrightarrow> AList.update k v c = c @ [(k, v)]"
  by (induction c) auto

lemma fold_update_fresh:
  "distinct (map fst xs) \<Longrightarrow> fst ` set xs \<inter> fst ` set c = {} \<Longrightarrow>
   fold (\<lambda>(k, v) c. AList.update k v c) xs c = c @ xs"
proof (induction xs arbitrary: c)
  case Nil
  then show ?case by simp
next
  case (Cons x xs)
  obtain k v where x: "x = (k, v)" by (cases x)
  from Cons.prems x have k: "k \<notin> fst ` set c" and d: "distinct (map fst xs)"
    and disj: "fst ` set xs \<inter> fst ` set (c @ [(k, v)]) = {}"
    by (auto simp: image_iff)
  have "fold (\<lambda>(k, v) c. AList.update k v c) (x # xs) c
          = fold (\<lambda>(k, v) c. AList.update k v c) xs (c @ [(k, v)])"
    by (simp add: x update_fresh [OF k])
  also have "\<dots> = (c @ [(k, v)]) @ xs"
    using d disj by (rule Cons.IH)
  finally show ?case by (simp add: x)
qed

lemma copy_entries_clearjunk: "copy_entries m = AList.clearjunk m"
  by (simp add: copy_entries_def fold_update_fresh)

lemma copy_entries_distinct: "distinct (map fst m) \<Longrightarrow> copy_entries m = m"
  by (simp add: copy_entries_clearjunk)

lemma copy_entries_map_values:
  "copy_entries (map (\<lambda>(k, v). (k, f v)) m) = map (\<lambda>(k, v). (k, f v)) (copy_entries m)"
proof -
  have "map (\<lambda>(k, v). (k, f v)) xs = AList.map_ran (\<lambda>k. f) xs" for xs :: "(string \<times> 'b) list"
    by (simp add: AList.map_ran_def)
  then show ?thesis
    by (simp add: copy_entries_clearjunk clearjunk_map_ran)
qed

subsection \<open>Decoding an entry and reading it back\<close>

lemma decode_extends:
  "decode_val v h = (x, h') \<Longrightarrow> \<exists>ext. h' = h @ ext"
  "decode_fields d h = (m, h') \<Longrightarrow> \<exists>ext. h' = h @ ext"
proof (induction v h and d h arbitrary: x h' and m h' rule: decode_val_decode_fields.induct)
  case (6 d h)
  then show ?case by (fastforce split: prod.splits)
next
  case (8 k v rest h)
  then show ?case by (fastforce split: prod.splits)
qed auto

lemma load_append_old: "a < length h \<Longrightarrow> load (h @ ext) a = load h a"
  by (simp add: load_def nth_append)

lemma decode_roundtrip:
  "decode_val v h = (x, h') \<Longrightarrow>
   (\<And>a. length h \<le> a \<Longrightarrow> a < length h' \<Longrightarrow> load h'' a = load h' a) \<Longrightarrow>
   length h' \<le> length h + n \<Longrightarrow> reify n h'' x = v"
  "decode_fields d h = (m, h') \<Longrightarrow>
   (\<And>a. length h \<le> a \<Longrightarrow> a < length h' \<Longrightarrow> load h'' a = load h' a) \<Longrightarrow>
   length h' \<le> length h + n \<Longrightarrow> map (\<lambda>(k, v). (k, reify n h'' v)) m = d"
proof (induction v h and d h arbitrary: x h' n and m h' n rule: decode_val_decode_fields.induct)
  case (6 d h)
  obtain m h1 where df: "decode_fields d h = (m, h1)"
    by (cases "decode_fields d h")
  with "6.prems"(1) have x: "x = IMap (length h1)" and h': "h' = h1 @ [m]"
    by simp_all
  from decode_extends(2) [OF df] have le: "length h \<le> length h1" by auto
  from "6.prems"(3) h' le obtain n' where n: "n = Suc n'" and n': "length h1 \<le> length h + n'"
    by (cases n) auto
  have cell: "load h'' (length h1) = m"
    using "6.prems"(2) [of "length h1"] le h' by (simp add: load_def)
  have "map (\<lambda>(k, v). (k, reify n' h'' v)) m = d"
  proof (rule "6.IH" [OF df _ n'])
    fix a assume "length h \<le> a" "a < length h1"
    then show "load h'' a = load h1 a"
      using "6.prems"(2) [of a] h' by (simp add: load_append_old)
  qed
  then show ?case by (simp add: x n cell)
next
  case (8 k v rest h)
  obtain y h1 where dv: "decode_val v h = (y, h1)"
    by (cases "decode_val v h")
  obtain m1 h2 where df: "decode_fields rest h1 = (m1, h2)"
    by (cases "decode_fields rest h1")
  from "8.prems"(1) dv df have m: "m = (k, y) # m1" and h': "h' = h2"
    by simp_all
  from decode_extends(1) [OF dv] obtain e1 where e1: "h1 = h @ e1" by auto
  from decode_extends(2) [OF df] obtain e2 where e2: "h2 = h1 @ e2" by auto
  have a: "reify n h'' y = v"
  proof (rule "8.IH"(1) [OF dv])
    fix a assume "length h \<le> a" "a < length h1"
    then show "load h'' a = load h1 a"
      using "8.prems"(2) [of a] h' e2 by (simp add: load_append_old)
  next
    show "length h1 \<le> length h + n"
      using "8.prems"(3) h' e2 by simp
  qed
  have b: "map (\<lambda>(k, v). (k, reify n h'' v)) m1 = rest"
  proof (rule "8.IH"(2) [OF dv [symmetric] df])
    fix a assume "length h1 \<le> a" "a < length h2"
    then show "load h'' a = load h2 a"
      using "8.prems"(2) [of a] h' e1 by simp
  next
    show "length h2 \<le> length h1 + n"
      using "8.prems"(3) h' e1 by simp
  qed
  from a b show ?case by (simp add: m)
qed auto

subsection \<open>The maps handed to the dispatch tasks\<close>

lemma settled_later:
  assumes "settled h r c d"
    and "length h \<le> length h'"
    and "\<And>a. a < length h \<Longrightarrow> r \<noteq> Some a \<Longrightarrow> load h' a = load h a \<and> r' \<noteq> Some a"
  shows "settled h' r' c d"
  unfolding settled_def
proof (intro allI impI)
  fix h'' n
  assume ag: "\<forall>a<length h'. r' \<noteq> Some a \<longrightarrow> load h'' a = load h' a" and n: "length h' \<le> n"
  have "\<forall>a<length h. r \<noteq> Some a \<longrightarrow> load h'' a = load h a"
    using ag assms(2,3) by (metis less_le_trans)
  moreover have "length h \<le> n" using n assms(2) by simp
  ultimately show "reify_map n h'' c = d"
    using assms(1) unfolding settled_def by blast
qed

lemma iter_Next_facts:
  assumes nx: "iter_Next e s = (r, s1)"
    and df: "decode_fields e (heap s) = (m, h)"
    and ok: "\<And>r0. result s = Some r0 \<Longrightarrow> r0 < length (heap s)"
  shows "result s1 = Some r" "r < length (heap s1)" "load (heap s1) r = m"
    "tasks s1 = tasks s" "cursors s1 = cursors s" "log_lines s1 = log_lines s"
    "lastTimestamp s1 = lastTimestamp s"
    "length h \<le> length (heap s1)" "length (heap s) \<le> length h"
    "result s = Some r \<or> (result s = None \<and> r = length h)"
    "\<And>a. a < length h \<Longrightarrow> a \<noteq> r \<Longrightarrow> load (heap s1) a = load h a"
    "\<And>a. a < length (heap s) \<Longrightarrow> load h a = load (heap s) a"
proof -
  from decode_extends(2) [OF df] obtain ext where ext: "h = heap s @ ext" by auto
  show "length (heap s) \<le> length h" by (simp add: ext)
  show "\<And>a. a < length (heap s) \<Longrightarrow> load h a = load (heap s) a"
    by (simp add: ext load_append_old)
  show "result s1 = Some r" "r < length (heap s1)" "load (heap s1) r = m"
    "tasks s1 = tasks s" "cursors s1 = cursors s" "log_lines s1 = log_lines s"
    "lastTimestamp s1 = lastTimestamp s"
    "length h \<le> length (heap s1)"
    "result s = Some r \<or> (result s = None \<and> r = length h)"
    "\<And>a. a < length h \<Longrightarrow> a \<noteq> r \<Longrightarrow> load (heap s1) a = load h a"
    using nx df ok ext
    by (auto simp: iter_Next_def load_def nth_append split: option.splits)
qed

lemma copy_result_facts:
  assumes "copy_result h r = (c, h2)" and "r < length h"
  shows "c = length h" "h2 = h @ [copy_entries (load h r)]"
  using assms by (auto simp: copy_result_def Let_def load_def nth_append)

lemma loop_inv_Next:
  assumes inv: "loop_inv s ds" and nx: "iter_Next e s = (r, s1)"
  shows "loop_inv s1 ds"
proof -
  obtain m h where df: "decode_fields e (heap s) = (m, h)"
    by (cases "decode_fields e (heap s)")
  from inv have ok: "\<And>r0. result s = Some r0 \<Longrightarrow> r0 < length (heap s)"
    and tk: "\<forall>c \<in> set (tasks s). c < length (heap s) \<and> result s \<noteq> Some c"
    and dist: "distinct (tasks s)"
    and st: "list_all2 (settled (heap s) (result s)) (tasks s) ds"
    by (auto simp: loop_inv_def)
  note f = iter_Next_facts [OF nx df ok]
  have len: "length (heap s) \<le> length (heap s1)" using f(8,9) by simp
  have keep: "load (heap s1) a = load (heap s) a \<and> result s1 \<noteq> Some a"
    if "a < length (heap s)" "result s \<noteq> Some a" for a
  proof -
    from that f(10) f(9) have "a \<noteq> r" by auto
    moreover from that f(9) have "a < length h" by simp
    ultimately show ?thesis using f(11) [of a] f(12) [of a] that f(1) by simp
  qed
  have "list_all2 (settled (heap s1) (result s1)) (tasks s) ds"
    using st
  proof (rule list_all2_mono)
    fix c d assume "settled (heap s) (result s) c d"
    then show "settled (heap s1) (result s1) c d"
      using len keep by (rule settled_later)
  qed
  moreover have "\<forall>c \<in> set (tasks s). c < length (heap s1) \<and> result s1 \<noteq> Some c"
    using tk len keep by fastforce
  ultimately show ?thesis
    using dist f(1,2,4) by (simp add: loop_inv_def)
qed

lemma loop_inv_copy:
  assumes inv: "loop_inv s ds" and nx: "iter_Next e s = (r, s1)"
    and cp: "copy_result (heap s1) r = (c, h2)"
  shows "loop_inv (s1\<lparr>lastTimestamp := ts, heap := h2, tasks := tasks s1 @ [c]\<rparr>)
           (ds @ [copy_entries e])"
proof -
  obtain m h where df: "decode_fields e (heap s) = (m, h)"
    by (cases "decode_fields e (heap s)")
  from inv have ok: "\<And>r0. result s = Some r0 \<Longrightarrow> r0 < length (heap s)"
    by (auto simp: loop_inv_def)
  note f = iter_Next_facts [OF nx df ok]
  from loop_inv_Next [OF inv nx] have inv1: "loop_inv s1 ds" .
  then have tk: "\<forall>c' \<in> set (tasks s1). c' < length (heap s1) \<and> result s1 \<noteq> Some c'"
    and dist: "distinct (tasks s1)"
    and st: "list_all2 (settled (heap s1) (result s1)) (tasks s1) ds"
    by (auto simp: loop_inv_def)
  from copy_result_facts [OF cp f(2)] f(3)
  have c: "c = length (heap s1)" and h2: "h2 = heap s1 @ [copy_entries m]"
    by simp_all
  have old: "list_all2 (settled h2 (Some r)) (tasks s1) ds"
    using st
  proof (rule list_all2_mono)
    fix c' d assume "settled (heap s1) (result s1) c' d"
    then show "settled h2 (Some r) c' d"
    proof (rule settled_later)
      show "length (heap s1) \<le> length h2" by (simp add: h2)
    next
      fix a assume "a < length (heap s1)" "result s1 \<noteq> Some a"
      then show "load h2 a = load (heap s1) a \<and> Some r \<noteq> Some a"
        using f(1) by (simp add: h2 load_append_old)
    qed
  qed
  have new: "settled h2 (Some r) c (copy_entries e)"
    unfolding settled_def
  proof (intro allI impI)
    fix h'' n
    assume ag: "\<forall>a<length h2. Some r \<noteq> Some a \<longrightarrow> load h'' a = load h2 a"
      and n: "length h2 \<le> n"
    have cr: "c \<noteq> r" using f(2) c by simp
    have "load h'' c = load h2 c"
      using ag cr c h2 by simp
    also have "\<dots> = copy_entries m"
      by (simp add: c h2 load_def)
    finally have cell: "load h'' c = copy_entries m" .
    have "map (\<lambda>(k, v). (k, reify n h'' v)) m = e"
    proof (rule decode_roundtrip(2) [OF df])
      fix a assume a: "length (heap s) \<le> a" "a < length h"
      with f(10) ok have ar: "a \<noteq> r" by auto
      from a f(8) have a1: "a < length (heap s1)" by simp
      then have "load h'' a = load h2 a"
        using ag ar by (simp add: h2)
      also have "\<dots> = load (heap s1) a"
        using a1 by (simp add: h2 load_append_old)
      also have "\<dots> = load h a"
        using a(2) ar f(11) by blast
      finally show "load h'' a = load h a" .
    next
      show "length h \<le> length (heap s) + n"
        using n f(8) by (simp add: h2)
    qed
    then show "reify_map n h'' c = copy_entries e"
      by (simp add: reify_map_def cell copy_entries_map_values [symmetric])
  qed
  have all: "list_all2 (settled h2 (Some r)) (tasks s1 @ [c]) (ds @ [copy_entries e])"
    using old new by (simp add: list_all2_appendI)
  have d2: "distinct (tasks s1 @ [c])"
    using dist tk c by auto
  have t2: "\<forall>c' \<in> set (tasks s1 @ [c]). c' < length h2 \<and> Some r \<noteq> Some c'"
    using tk f(1,2) c h2 by auto
  show ?thesis
    using all d2 t2 f(1,2) by (simp add: loop_inv_def h2)
qed

lemma iter_loop_inv:
  "loop_inv s ds \<Longrightarrow> iter_loop es s = (s', st) \<Longrightarrow>
   \<exists>k. loop_inv s' (ds @ map copy_entries (take k es)) \<and> (st = Done \<longrightarrow> length es \<le> k)"
proof (induction es arbitrary: s ds)
  case Nil
  then show ?case by auto
next
  case (Cons e es)
  obtain r s1 where nx: "iter_Next e s = (r, s1)"
    by (cases "iter_Next e s")
  show ?case
  proof (cases "must_Timestamp (map_of (load (heap s1) r) ''ts'')")
    case None
    with Cons.prems(2) nx have "s' = s1" "st = Panicked" by simp_all
    moreover have "loop_inv s1 (ds @ map copy_entries (take 0 (e # es)))"
      using loop_inv_Next [OF Cons.prems(1) nx] by simp
    ultimately show ?thesis by blast
  next
    case (Some ts)
    obtain c h2 where cp: "copy_result (heap s1) r = (c, h2)"
      by (cases "copy_result (heap s1) r")
    let ?s2 = "s1\<lparr>lastTimestamp := ts, heap := h2, tasks := tasks s1 @ [c]\<rparr>"
    from Cons.prems(2) nx Some cp have run: "iter_loop es ?s2 = (s', st)"
      by (simp add: Let_def)
    from loop_inv_copy [OF Cons.prems(1) nx cp]
    have "loop_inv ?s2 (ds @ [copy_entries e])" .
    from Cons.IH [OF this run] obtain k
      where "loop_inv s' ((ds @ [copy_entries e]) @ map copy_entries (take k es))"
        and "st = Done \<longrightarrow> length es \<le> k"
      by blast
    then have "loop_inv s' (ds @ map copy_entries (take (Suc k) (e # es)))"
      and "st = Done \<longrightarrow> length (e # es) \<le> Suc k"
      by simp_all
    then show ?thesis by blast
  qed
qed

lemma loop_inv_reset: "loop_inv s ds \<Longrightarrow> loop_inv (s\<lparr>result := None\<rparr>) ds"
proof -
  assume inv: "loop_inv s ds"
  have "settled (heap s) None c d" if "settled (heap s) (result s) c d" for c d
    using that by (rule settled_later) simp_all
  then have "list_all2 (settled (heap s) None) (tasks s) ds"
    using inv list_all2_mono unfolding loop_inv_def by blast
  with inv show ?thesis by (simp add: loop_inv_def)
qed

lemma tail_loop_inv:
  "loop_inv s ds \<Longrightarrow> tail_loop env s = (s', res) \<Longrightarrow>
   \<exists>k. loop_inv s' (ds @ map copy_entries (take k (concat (map batch env))))
       \<and> (res = StillRunning \<longrightarrow> length (concat (map batch env)) \<le> k)"
proof (induction env arbitrary: s ds)
  case Nil
  then have "loop_inv s' (ds @ map copy_entries (take 0 (concat (map batch []))))" by simp
  then show ?case by force
next
  case (Cons rd env)
  show ?case
  proof (cases "quit_recv rd")
    case (Some b)
    with Cons.prems
    have "loop_inv s' (ds @ map copy_entries (take 0 (concat (map batch (rd # env)))))"
      and "res \<noteq> StillRunning"
      by (auto simp: loop_inv_def)
    then show ?thesis by blast
  next
    case None
    obtain s1 st where it: "iter_loop (batch rd) (s\<lparr>result := None\<rparr>) = (s1, st)"
      by (cases "iter_loop (batch rd) (s\<lparr>result := None\<rparr>)")
    from iter_loop_inv [OF loop_inv_reset [OF Cons.prems(1)] it] obtain k1
      where inv1: "loop_inv s1 (ds @ map copy_entries (take k1 (batch rd)))"
        and fin: "st = Done \<longrightarrow> length (batch rd) \<le> k1"
      by blast
    have part: "\<exists>k. loop_inv s1 (ds @ map copy_entries (take k (concat (map batch (rd # env)))))"
    proof -
      have "take (min k1 (length (batch rd))) (concat (map batch (rd # env))) = take k1 (batch rd)"
        by (simp add: min_def)
      with inv1 show ?thesis by metis
    qed
    show ?thesis
    proof (cases st)
      case Panicked
      with Cons.prems(2) None it have "s' = s1" "res \<noteq> StillRunning" by auto
      with part show ?thesis by simp
    next
      case Done
      with fin inv1 have full: "loop_inv s1 (ds @ map copy_entries (batch rd))" by simp
      have go: "\<exists>k. loop_inv s' (ds @ map copy_entries (take k (concat (map batch (rd # env)))))
                   \<and> (res = StillRunning \<longrightarrow> length (concat (map batch (rd # env))) \<le> k)"
        if run: "tail_loop env s2 = (s', res)" and inv2: "loop_inv s2 (ds @ map copy_entries (batch rd))"
        for s2
      proof -
        from Cons.IH [OF inv2 run] obtain k
          where "loop_inv s' ((ds @ map copy_entries (batch rd)) @
                   map copy_entries (take k (concat (map batch env))))"
            and "res = StillRunning \<longrightarrow> length (concat (map batch env)) \<le> k"
          by blast
        then have "loop_inv s' (ds @ map copy_entries
                     (take (length (batch rd) + k) (concat (map batch (rd # env)))))"
          and "res = StillRunning \<longrightarrow> length (concat (map batch (rd # env))) \<le> length (batch rd) + k"
          by simp_all
        then show ?thesis by blast
      qed
      show ?thesis
      proof (cases "cursor_end rd")
        case (CursorErr e)
        with Cons.prems(2) None it Done have "s' = s1" "res \<noteq> StillRunning" by auto
        with part show ?thesis by simp
      next
        case CursorTimeout
        with Cons.prems(2) None it Done have "tail_loop env s1 = (s', res)" by simp
        then show ?thesis using full by (rule go)
      next
        case CursorDead
        with Cons.prems(2) None it Done
        have "tail_loop env (s1\<lparr>cursors := cursors s1 @ [lastTimestamp s1]\<rparr>) = (s', res)"
          by simp
        moreover from full
        have "loop_inv (s1\<lparr>cursors := cursors s1 @ [lastTimestamp s1]\<rparr>)
                (ds @ map copy_entries (batch rd))"
          by (simp add: loop_inv_def)
        ultimately show ?thesis by (rule go)
      qed
    qed
  qed
qed

lemma settled_now: "settled (heap s) (result s) c d \<Longrightarrow> task_dataset s c = d"
  unfolding settled_def task_dataset_def by blast

lemma loop_inv_datasets:
  assumes "loop_inv s (map copy_entries (take k xs))"
  shows "map (task_dataset s) (tasks s) = map copy_entries (take (length (tasks s)) xs)"
proof -
  from assms have st: "list_all2 (settled (heap s) (result s)) (tasks s) (map copy_entries (take k xs))"
    by (simp add: loop_inv_def)
  then have "length (tasks s) = length (take k xs)"
    by (auto dest: list_all2_lengthD)
  then have tk: "take (length (tasks s)) xs = take k xs"
    by (simp add: min_def)
  from st have "list_all2 (\<lambda>c d. task_dataset s c = d) (tasks s) (map copy_entries (take k xs))"
    by (rule list_all2_mono) (rule settled_now)
  then have "map (task_dataset s) (tasks s) = map copy_entries (take k xs)"
    by (induction rule: list_all2_induct) simp_all
  with tk show ?thesis by simp
qed

lemma iter_loop_last:
  "es \<noteq> [] \<Longrightarrow> iter_loop es s = (s', Done) \<Longrightarrow>
   (\<And>r0. result s = Some r0 \<Longrightarrow> r0 < length (heap s)) \<Longrightarrow>
   \<exists>r. result s' = Some r \<and> r < length (heap s') \<and> tasks s' \<noteq> [] \<and>
       load (heap s') (last (tasks s')) = copy_entries (load (heap s') r)"
proof (induction es arbitrary: s)
  case Nil
  then show ?case by simp
next
  case (Cons e es)
  obtain r s1 where nx: "iter_Next e s = (r, s1)"
    by (cases "iter_Next e s")
  obtain m h where df: "decode_fields e (heap s) = (m, h)"
    by (cases "decode_fields e (heap s)")
  note f = iter_Next_facts [OF nx df Cons.prems(3)]
  from Cons.prems(2) nx obtain ts where ts: "must_Timestamp (map_of (load (heap s1) r) ''ts'') = Some ts"
    by (cases "must_Timestamp (map_of (load (heap s1) r) ''ts'')") auto
  obtain c h2 where cp: "copy_result (heap s1) r = (c, h2)"
    by (cases "copy_result (heap s1) r")
  let ?s2 = "s1\<lparr>lastTimestamp := ts, heap := h2, tasks := tasks s1 @ [c]\<rparr>"
  from Cons.prems(2) nx ts cp have run: "iter_loop es ?s2 = (s', Done)"
    by (simp add: Let_def)
  from copy_result_facts [OF cp f(2)]
  have c: "c = length (heap s1)" and h2: "h2 = heap s1 @ [copy_entries (load (heap s1) r)]"
    by simp_all
  have r2: "result ?s2 = Some r" "r < length (heap ?s2)"
    using f(1,2) by (simp_all add: h2)
  note IH = Cons.IH
  show ?case
  proof (cases "es = []")
    case True
    with run have "s' = ?s2" by simp
    moreover have "load h2 c = copy_entries (load h2 r)"
      using f(2) by (simp add: c h2 load_def nth_append)
    ultimately show ?thesis using r2 by simp
  next
    case False
    then show ?thesis
      using run
    proof (rule IH)
      fix r0 assume "result ?s2 = Some r0"
      with r2 show "r0 < length (heap ?s2)" by simp
    qed
  qed
qed

lemma tail_loop_append:
  "tail_loop pre s = (s', StillRunning) \<Longrightarrow> tail_loop (pre @ rest) s = tail_loop rest s'"
  by (induction pre arbitrary: s)
     (auto split: option.splits prod.splits status.splits cursor_end.splits)

lemma tail_loop_stopped:
  "tail_loop pre s = (s', res) \<Longrightarrow> res \<noteq> StillRunning \<Longrightarrow> tail_loop (pre @ rest) s = (s', res)"
  by (induction pre arbitrary: s)
     (auto split: option.splits prod.splits status.splits cursor_end.splits)

lemma tail_loop_last_round:
  assumes "tail_loop (pre @ [rd]) s0 = (s, StillRunning)" and "batch rd \<noteq> []"
  shows "\<exists>r. result s = Some r \<and> r < length (heap s) \<and> tasks s \<noteq> [] \<and>
             load (heap s) (last (tasks s)) = copy_entries (load (heap s) r)"
proof -
  obtain sm rm where pre: "tail_loop pre s0 = (sm, rm)"
    by (cases "tail_loop pre s0")
  have rm: "rm = StillRunning"
  proof (rule ccontr)
    assume "rm \<noteq> StillRunning"
    from tail_loop_stopped [OF pre this, of "[rd]"] assms(1) show False
      using \<open>rm \<noteq> StillRunning\<close> by simp
  qed
  from tail_loop_append [OF pre [unfolded rm], of "[rd]"] assms(1)
  have last: "tail_loop [rd] sm = (s, StillRunning)" by simp
  obtain s1 st where it: "iter_loop (batch rd) (sm\<lparr>result := None\<rparr>) = (s1, st)"
    by (cases "iter_loop (batch rd) (sm\<lparr>result := None\<rparr>)")
  from last it have st: "st = Done"
    and s: "heap s = heap s1 \<and> tasks s = tasks s1 \<and> result s = result s1"
    by (auto split: option.splits status.splits cursor_end.splits)
  from iter_loop_last [OF assms(2) it [unfolded st]]
  obtain r where "result s1 = Some r \<and> r < length (heap s1) \<and> tasks s1 \<noteq> [] \<and>
       load (heap s1) (last (tasks s1)) = copy_entries (load (heap s1) r)"
    by auto
  with s show ?thesis by simp
qed

text \<open>
  Claim C2 as stated fails at a run that reads one entry whose \<open>o\<close> is a document. The
  decoder puts \<open>o\<close> at address 0 and the entry into the loop's map at address 1; the
  copy handed to the task is the new map at address 2, and its \<open>o\<close> is the same
  address 0. The nested document is shared, and a write into the \<open>o\<close> of the task's
  record shows in the \<open>o\<close> of the loop's record.
\<close>

theorem C2_nested_document_is_shared:
  "Tail \<lparr>Watches = [], startTime = 0\<rparr>
     [\<lparr>quit_recv = None,
       batch = [[(''ts'', VTimestamp 7), (''ns'', VString ''a.b''),
                 (''o'', VDoc [(''_id'', VObjectId ''x'')])]],
       cursor_end = CursorTimeout\<rparr>] False
   = (\<lparr>lastTimestamp = 7, cursors = [0], tasks = [2], log_lines = [],
       heap = [[(''_id'', IObjectId ''x'')],
               [(''ts'', ITimestamp 7), (''ns'', IString ''a.b''), (''o'', IMap 0)],
               [(''ts'', ITimestamp 7), (''ns'', IString ''a.b''), (''o'', IMap 0)]],
       result = Some 1\<rparr>, StillRunning)
   \<and> shared_docs
        [[(''_id'', IObjectId ''x'')],
         [(''ts'', ITimestamp 7), (''ns'', IString ''a.b''), (''o'', IMap 0)],
         [(''ts'', ITimestamp 7), (''ns'', IString ''a.b''), (''o'', IMap 0)]] 1 2 = [0]
   \<and> nested
        (assign_nested
           [[(''_id'', IObjectId ''x'')],
            [(''ts'', ITimestamp 7), (''ns'', IString ''a.b''), (''o'', IMap 0)],
            [(''ts'', ITimestamp 7), (''ns'', IString ''a.b''), (''o'', IMap 0)]]
           2 ''o'' ''n'' (IInt 7))
        1 ''o''
     = Some [(''_id'', IObjectId ''x''), (''n'', IInt 7)]"
  by (simp add: Tail_def iter_Next_def copy_result_def load_def copy_entries_distinct
        MongoTimestamp_shift uint32_def shared_docs_def doc_refs_def nested_def
        assign_nested_def store_assign_def)

text \<open>
  Claim C2, amended. The copy is one level deep. In every run of \<open>Tail\<close>, whatever the
  log source yields and however the run ends: the maps handed to the dispatch tasks
  are maps of their own, different from each other and from the map the loop reads
  into; the task of the \<open>i\<close>-th entry finds in its map the fields of that entry with
  their values, also after the loop has read later entries into its own map; and
  while the loop is still running every entry yielded has been handed over. The
  values are copied as they are: after a pass that read an entry, the last map handed
  over and the loop's map hold the same values under the same keys, so a nested
  document is the same reference in both.
\<close>

theorem C2_copy_is_shallow:
  assumes "Tail t env forceRescan = (s, res)"
  shows "distinct (tasks s)
         \<and> (\<forall>c \<in> set (tasks s). c < length (heap s) \<and> result s \<noteq> Some c)
         \<and> map (task_dataset s) (tasks s)
             = map copy_entries (take (length (tasks s)) (concat (map batch env)))
         \<and> (res = StillRunning \<longrightarrow> length (tasks s) = length (concat (map batch env)))
         \<and> (res = StillRunning \<and> env \<noteq> [] \<and> batch (last env) \<noteq> [] \<longrightarrow>
              (\<exists>r. result s = Some r
                 \<and> map_of (load (heap s) (last (tasks s))) = map_of (load (heap s) r)))"
proof -
  let ?s0 = "\<lparr>lastTimestamp = 0,
              cursors = [MongoTimestamp (if forceRescan then 0 else startTime t)],
              tasks = [], log_lines = [], heap = [], result = None\<rparr>"
  let ?xs = "concat (map batch env)"
  from assms have run: "tail_loop env ?s0 = (s, res)"
    by (simp add: Tail_def Let_def)
  have "loop_inv ?s0 []" by (simp add: loop_inv_def)
  from tail_loop_inv [OF this run] obtain k
    where inv: "loop_inv s (map copy_entries (take k ?xs))"
      and all: "res = StillRunning \<longrightarrow> length ?xs \<le> k"
    by auto
  from inv have own: "distinct (tasks s)"
      "\<forall>c \<in> set (tasks s). c < length (heap s) \<and> result s \<noteq> Some c"
    and len: "length (tasks s) = length (take k ?xs)"
    by (auto simp: loop_inv_def dest: list_all2_lengthD)
  have views: "map (task_dataset s) (tasks s) = map copy_entries (take (length (tasks s)) ?xs)"
    using inv by (rule loop_inv_datasets)
  have count: "res = StillRunning \<longrightarrow> length (tasks s) = length ?xs"
    using all len by simp
  have same: "\<exists>r. result s = Some r
                 \<and> map_of (load (heap s) (last (tasks s))) = map_of (load (heap s) r)"
    if "res = StillRunning" "env \<noteq> []" "batch (last env) \<noteq> []"
  proof -
    from that(2) have "env = butlast env @ [last env]" by simp
    with run that(1) have "tail_loop (butlast env @ [last env]) ?s0 = (s, StillRunning)"
      by simp
    from tail_loop_last_round [OF this that(3)] show ?thesis
      by (auto simp: map_of_copy_entries)
  qed
  from own views count same show ?thesis by blast
qed

text \<open>
  A pass that reads two entries into the same map: the two tasks find their own
  entries, and the last copy holds what the loop's map holds.
\<close>

theorem C2_copy_is_shallow_witness:
  "let s = \<lparr>lastTimestamp = 8, cursors = [0], tasks = [2, 4], log_lines = [],
             heap = [[(''_id'', IObjectId ''x'')],
                     [(''ts'', ITimestamp 8), (''ns'', IString ''c.d''), (''o'', IMap 3)],
                     [(''ts'', ITimestamp 7), (''ns'', IString ''a.b''), (''o'', IMap 0)],
                     [(''_id'', IObjectId ''y'')],
                     [(''ts'', ITimestamp 8), (''ns'', IString ''c.d''), (''o'', IMap 3)]],
             result = Some 1\<rparr>
   in Tail \<lparr>Watches = [], startTime = 0\<rparr>
        [\<lparr>quit_recv = None,
          batch = [[(''ts'', VTimestamp 7), (''ns'', VString ''a.b''),
                    (''o'', VDoc [(''_id'', VObjectId ''x'')])],
                   [(''ts'', VTimestamp 8), (''ns'', VString ''c.d''),
                    (''o'', VDoc [(''_id'', VObjectId ''y'')])]],
          cursor_end = CursorTimeout\<rparr>] False = (s, StillRunning)
      \<and> distinct (tasks s)
      \<and> map (task_dataset s) (tasks s)
          = [[(''ts'', VTimestamp 7), (''ns'', VString ''a.b''),
              (''o'', VDoc [(''_id'', VObjectId ''x'')])],
             [(''ts'', VTimestamp 8), (''ns'', VString ''c.d''),
              (''o'', VDoc [(''_id'', VObjectId ''y'')])]]
      \<and> map_of (load (heap s) 4) = map_of (load (heap s) 1)"
proof -
  let ?s = "\<lparr>lastTimestamp = 8, cursors = [0], tasks = [2, 4], log_lines = [],
             heap = [[(''_id'', IObjectId ''x'')],
                     [(''ts'', ITimestamp 8), (''ns'', IString ''c.d''), (''o'', IMap 3)],
                     [(''ts'', ITimestamp 7), (''ns'', IString ''a.b''), (''o'', IMap 0)],
                     [(''_id'', IObjectId ''y'')],
                     [(''ts'', ITimestamp 8), (''ns'', IString ''c.d''), (''o'', IMap 3)]],
             result = Some 1\<rparr>"
  let ?e1 = "[(''ts'', VTimestamp 7), (''ns'', VString ''a.b''),
              (''o'', VDoc [(''_id'', VObjectId ''x'')])]"
  let ?e2 = "[(''ts'', VTimestamp 8), (''ns'', VString ''c.d''),
              (''o'', VDoc [(''_id'', VObjectId ''y'')])]"
  let ?env = "[\<lparr>quit_recv = None, batch = [?e1, ?e2], cursor_end = CursorTimeout\<rparr>]"
  have h: "Tail \<lparr>Watches = [], startTime = 0\<rparr> ?env False = (?s, StillRunning)"
    by (simp add: Tail_def iter_Next_def copy_result_def load_def copy_entries_distinct
          MongoTimestamp_shift uint32_def)
  from C2_copy_is_shallow [OF h]
  have d: "distinct (tasks ?s)"
    and v: "map (task_dataset ?s) (tasks ?s)
              = map copy_entries (take (length (tasks ?s)) (concat (map batch ?env)))"
    and l: "StillRunning = StillRunning \<and> ?env \<noteq> [] \<and> batch (last ?env) \<noteq> [] \<longrightarrow>
              (\<exists>r. result ?s = Some r
                 \<and> map_of (load (heap ?s) (last (tasks ?s))) = map_of (load (heap ?s) r))"
    by blast+
  from v have v': "map (task_dataset ?s) (tasks ?s) = [?e1, ?e2]"
    by (simp add: copy_entries_distinct)
  from l have l': "map_of (load (heap ?s) 4) = map_of (load (heap ?s) 1)"
    by simp
  from h d v' l' show ?thesis
    unfolding Let_def by blast
qed

subsection \<open>Cancellation\<close>

text \<open>
  Claim C9. Let the loop have run through the passes \<open>pre\<close> and be still running, in
  state \<open>s\<close>. If the next poll of \<open>quit\<close> receives a value \<open>b\<close> (true or false), \<open>Tail\<close>
  returns nil there, whatever the cursor would have yielded in that pass and whatever
  would have followed; it logs one line, and the tasks submitted are those of \<open>s\<close>: none
  is waited for or withdrawn, and no further entry is read.
\<close>

theorem C9_quit_returns_nil:
  assumes "Tail t pre forceRescan = (s, StillRunning)"
  shows "Tail t (pre @ \<lparr>quit_recv = Some b, batch = es, cursor_end = c\<rparr> # rest) forceRescan
           = (s\<lparr>log_lines := log_lines s @ [''Agent stopped.'']\<rparr>, Returned None)
         \<and> tasks (fst (Tail t (pre @ \<lparr>quit_recv = Some b, batch = es, cursor_end = c\<rparr> # rest)
                          forceRescan)) = tasks s"
  using assms by (simp add: Tail_def Let_def tail_loop_append)

theorem C9_quit_returns_nil_witness:
  "Tail \<lparr>Watches = [], startTime = 0\<rparr>
     [\<lparr>quit_recv = None, batch = [[(''ts'', VTimestamp 7), (''ns'', VString ''a.b'')]],
       cursor_end = CursorTimeout\<rparr>,
      \<lparr>quit_recv = Some False, batch = [[(''ts'', VTimestamp 9)]], cursor_end = CursorDead\<rparr>]
     False
   = (\<lparr>lastTimestamp = 7, cursors = [0], tasks = [1],
       log_lines = [''Agent stopped.''],
       heap = [[(''ts'', ITimestamp 7), (''ns'', IString ''a.b'')],
               [(''ts'', ITimestamp 7), (''ns'', IString ''a.b'')]],
       result = Some 0\<rparr>, Returned None)"
proof -
  have h: "Tail \<lparr>Watches = [], startTime = 0\<rparr>
     [\<lparr>quit_recv = None, batch = [[(''ts'', VTimestamp 7), (''ns'', VString ''a.b'')]],
       cursor_end = CursorTimeout\<rparr>] False
     = (\<lparr>lastTimestamp = 7, cursors = [0], tasks = [1], log_lines = [],
         heap = [[(''ts'', ITimestamp 7), (''ns'', IString ''a.b'')],
                 [(''ts'', ITimestamp 7), (''ns'', IString ''a.b'')]],
         result = Some 0\<rparr>, StillRunning)"
    by (simp add: Tail_def iter_Next_def copy_result_def load_def copy_entries_distinct
          MongoTimestamp_shift uint32_def)
  from C9_quit_returns_nil [OF h, of False "[[(''ts'', VTimestamp 9)]]" CursorDead "[]"]
  show ?thesis by simp
qed

subsection \<open>The resume position\<close>

lemma iter_Next_cursors: "cursors (snd (iter_Next e s)) = cursors s"
  by (simp add: iter_Next_def split: prod.splits option.splits)

lemma iter_loop_cursors: "cursors (fst (iter_loop es s)) = cursors s"
proof (induction es arbitrary: s)
  case Nil
  then show ?case by simp
next
  case (Cons e es)
  obtain r s1 where nx: "iter_Next e s = (r, s1)"
    by (cases "iter_Next e s")
  with iter_Next_cursors [of e s] have c1: "cursors s1 = cursors s" by simp
  show ?case
    using nx c1 Cons.IH by (simp add: Let_def split: option.splits prod.splits)
qed

lemma tail_loop_cursors_grow: "\<exists>xs. cursors (fst (tail_loop rs s)) = cursors s @ xs"
proof (induction rs arbitrary: s)
  case Nil
  then show ?case by simp
next
  case (Cons r rs)
  show ?case
  proof (cases "quit_recv r")
    case (Some b)
    then show ?thesis by simp
  next
    case None
    obtain s1 st where it: "iter_loop (batch r) (s\<lparr>result := None\<rparr>) = (s1, st)"
      by (cases "iter_loop (batch r) (s\<lparr>result := None\<rparr>)")
    then have c1: "cursors s1 = cursors s"
      using iter_loop_cursors [of "batch r" "s\<lparr>result := None\<rparr>"] by simp
    show ?thesis
    proof (cases st)
      case Panicked
      with None it c1 show ?thesis by simp
    next
      case Done
      show ?thesis
      proof (cases "cursor_end r")
        case (CursorErr e)
        with None it c1 Done show ?thesis by simp
      next
        case CursorTimeout
        with None it c1 Done Cons.IH [of s1] show ?thesis by simp
      next
        case CursorDead
        from Cons.IH [of "s1\<lparr>cursors := cursors s1 @ [lastTimestamp s1]\<rparr>"]
        obtain xs where "cursors (fst (tail_loop rs (s1\<lparr>cursors := cursors s1 @ [lastTimestamp s1]\<rparr>)))
                          = (cursors s1 @ [lastTimestamp s1]) @ xs"
          by auto
        with None it c1 Done CursorDead show ?thesis by simp
      qed
    qed
  qed
qed

lemma tail_loop_idle:
  "result s = None \<Longrightarrow>
   tail_loop (replicate n \<lparr>quit_recv = None, batch = [], cursor_end = CursorTimeout\<rparr> @ rs) s
     = tail_loop rs s"
proof (induction n)
  case 0
  then show ?case by simp
next
  case (Suc n)
  from Suc.prems have same: "s\<lparr>result := None\<rparr> = s" by simp
  have "tail_loop (replicate (Suc n) \<lparr>quit_recv = None, batch = [], cursor_end = CursorTimeout\<rparr> @ rs) s
          = tail_loop (replicate n \<lparr>quit_recv = None, batch = [], cursor_end = CursorTimeout\<rparr> @ rs)
              (s\<lparr>result := None\<rparr>)"
    by simp
  also have "\<dots> = tail_loop rs s"
    unfolding same using Suc.prems by (rule Suc.IH)
  finally show ?case .
qed

text \<open>
  Claim C1 at the runs, without rescan, whose first cursor ends with no error and no
  timeout before it has yielded an entry (after any number of idle timeouts). The first
  cursor is opened with the start timestamp; the requery is opened with
  \<open>lastTimestamp\<close>, which is still its initial zero. So for every start time and
  whatever follows, the first two filters are the start timestamp and 0; for a start at
  Unix second 1700000000 they are 7301444403200000000 and 0, the second below the first.
\<close>

theorem C1_requery_before_first_entry:
  "take 2 (cursors (fst (Tail t
       (replicate n \<lparr>quit_recv = None, batch = [], cursor_end = CursorTimeout\<rparr> @
        \<lparr>quit_recv = None, batch = [], cursor_end = CursorDead\<rparr> # rest) False)))
     = [MongoTimestamp (startTime t), 0]
   \<and> cursors (fst (Tail \<lparr>Watches = [], startTime = 1700000000\<rparr>
                      [\<lparr>quit_recv = None, batch = [], cursor_end = CursorDead\<rparr>] False))
       = [7301444403200000000, 0]
   \<and> (0 :: 64 word) < 7301444403200000000"
proof -
  let ?s0 = "\<lparr>lastTimestamp = 0, cursors = [MongoTimestamp (startTime t)], tasks = [],
              log_lines = [], heap = [], result = None\<rparr>"
  let ?s1 = "?s0\<lparr>cursors := cursors ?s0 @ [lastTimestamp ?s0]\<rparr>"
  have "Tail t (replicate n \<lparr>quit_recv = None, batch = [], cursor_end = CursorTimeout\<rparr> @
          \<lparr>quit_recv = None, batch = [], cursor_end = CursorDead\<rparr> # rest) False
          = tail_loop rest ?s1"
    by (simp add: Tail_def tail_loop_idle)
  moreover obtain xs where "cursors (fst (tail_loop rest ?s1)) = cursors ?s1 @ xs"
    using tail_loop_cursors_grow by blast
  ultimately have general: "take 2 (cursors (fst (Tail t
       (replicate n \<lparr>quit_recv = None, batch = [], cursor_end = CursorTimeout\<rparr> @
        \<lparr>quit_recv = None, batch = [], cursor_end = CursorDead\<rparr> # rest) False)))
     = [MongoTimestamp (startTime t), 0]"
    by simp
  have run: "cursors (fst (Tail \<lparr>Watches = [], startTime = 1700000000\<rparr>
                      [\<lparr>quit_recv = None, batch = [], cursor_end = CursorDead\<rparr>] False))
       = [7301444403200000000, 0]"
    by (simp add: Tail_def MongoTimestamp_shift uint32_def)
  have "(0 :: 64 word) < 7301444403200000000" by simp
  with general run show ?thesis by blast
qed

subsection \<open>Malformed entries\<close>

text \<open>
  Claim C3 at four runs. An update on a target collection whose \<open>o2\<close> is absent, and
  one whose \<open>o2._id\<close> is an integer, make \<open>analyzeResult\<close> panic at the one-valued
  type assertions that build the reference (the delete branch and the second update
  branch test \<open>o2\<close> with the two-valued form, and \<open>o._id\<close> is read with it). The same
  update read by \<open>Tail\<close> is submitted as a task, and the task panics. An entry without
  \<open>ts\<close> makes \<open>Tail\<close> itself panic at \<^verbatim>\<open>result["ts"].(bson.MongoTimestamp)\<close>.
  Nothing recovers these panics.
\<close>

theorem C3_malformed_entries_panic:
  "snd (analyzeResult [(''ns'', VString ''a.b''), (''op'', VString ''u''), (''o'', VDoc [])]
          [\<lparr>TargetCollection = ''a.b'', TrackCollection = ''c.d''\<rparr>]) = Panicked
   \<and> snd (analyzeResult
            [(''ns'', VString ''a.b''), (''op'', VString ''u''), (''o'', VDoc []),
             (''o2'', VDoc [(''_id'', VInt 5)])]
            [\<lparr>TargetCollection = ''a.b'', TrackCollection = ''c.d''\<rparr>]) = Panicked
   \<and> map snd
        (task_outcomes \<lparr>Watches = [\<lparr>TargetCollection = ''a.b'', TrackCollection = ''c.d''\<rparr>],
                        startTime = 0\<rparr>
           (fst (Tail \<lparr>Watches = [\<lparr>TargetCollection = ''a.b'', TrackCollection = ''c.d''\<rparr>],
                       startTime = 0\<rparr>
                   [\<lparr>quit_recv = None,
                     batch = [[(''ts'', VTimestamp 7), (''ns'', VString ''a.b''),
                               (''op'', VString ''u''), (''o'', VDoc [])]],
                     cursor_end = CursorTimeout\<rparr>] False))) = [Panicked]
   \<and> snd (Tail \<lparr>Watches = [], startTime = 0\<rparr>
            [\<lparr>quit_recv = None,
              batch = [[(''ns'', VString ''a.b''), (''op'', VString ''i''), (''o'', VDoc [])]],
              cursor_end = CursorTimeout\<rparr>] False) = TailPanic"
proof -
  let ?w = "\<lparr>TargetCollection = ''a.b'', TrackCollection = ''c.d''\<rparr>"
  let ?e = "[(''ts'', VTimestamp 7), (''ns'', VString ''a.b''), (''op'', VString ''u''),
             (''o'', VDoc [])]"
  have a: "snd (analyzeResult [(''ns'', VString ''a.b''), (''op'', VString ''u''), (''o'', VDoc [])]
                  [?w]) = Panicked"
    by (simp add: analyzeResult_def NewOplogQuery_def strings_Index_def has_prefix_def
          index_map_def OP_def DB_def C_def dispatch_watch_def)
  have b: "snd (analyzeResult
            [(''ns'', VString ''a.b''), (''op'', VString ''u''), (''o'', VDoc []),
             (''o2'', VDoc [(''_id'', VInt 5)])] [?w]) = Panicked"
    by (simp add: analyzeResult_def NewOplogQuery_def strings_Index_def has_prefix_def
          index_map_def OP_def DB_def C_def dispatch_watch_def)
  have run: "Tail \<lparr>Watches = [?w], startTime = 0\<rparr>
               [\<lparr>quit_recv = None, batch = [?e], cursor_end = CursorTimeout\<rparr>] False
             = (\<lparr>lastTimestamp = 7, cursors = [0], tasks = [2], log_lines = [],
                 heap = [[],
                         [(''ts'', ITimestamp 7), (''ns'', IString ''a.b''),
                          (''op'', IString ''u''), (''o'', IMap 0)],
                         [(''ts'', ITimestamp 7), (''ns'', IString ''a.b''),
                          (''op'', IString ''u''), (''o'', IMap 0)]],
                 result = Some 1\<rparr>, StillRunning)"
    by (simp add: Tail_def iter_Next_def copy_result_def load_def copy_entries_distinct
          MongoTimestamp_shift uint32_def)
  have view: "task_dataset s 2 = ?e"
    if "heap s = [[],
                  [(''ts'', ITimestamp 7), (''ns'', IString ''a.b''),
                   (''op'', IString ''u''), (''o'', IMap 0)],
                  [(''ts'', ITimestamp 7), (''ns'', IString ''a.b''),
                   (''op'', IString ''u''), (''o'', IMap 0)]]" for s
    using that by (simp add: task_dataset_def reify_map_def load_def eval_nat_numeral)
  have c: "map snd (task_outcomes \<lparr>Watches = [?w], startTime = 0\<rparr>
             (fst (Tail \<lparr>Watches = [?w], startTime = 0\<rparr>
                     [\<lparr>quit_recv = None, batch = [?e], cursor_end = CursorTimeout\<rparr>] False)))
           = [Panicked]"
    unfolding run fst_conv
    by (simp add: task_outcomes_def view analyzeResult_def NewOplogQuery_def strings_Index_def
          has_prefix_def index_map_def OP_def DB_def C_def dispatch_watch_def)
  have d: "snd (Tail \<lparr>Watches = [], startTime = 0\<rparr>
            [\<lparr>quit_recv = None,
              batch = [[(''ns'', VString ''a.b''), (''op'', VString ''i''), (''o'', VDoc [])]],
              cursor_end = CursorTimeout\<rparr>] False) = TailPanic"
    by (simp add: Tail_def iter_Next_def load_def)
  from a b c d show ?thesis by blast
qed

end
